theory Spec2Isabelle
  imports Complex_Main "HOL-Library.Sublist"
begin

section \<open>Python exceptions as values\<close>

text \<open>
  Every \<^verbatim>\<open>raise\<close> of the modelled code is a value \<open>Inl e\<close> of a result type
  \<open>error + 'a\<close>. A \<^verbatim>\<open>ValueError\<close> or \<^verbatim>\<open>TypeError\<close> carries the fixed part of its
  message (the interpolated shapes of the f-strings are left out).
\<close>

datatype error =
    StopIteration
  | IndexError
  | TypeError string
  | ValueError string
  | NotImplementedError string
  | RuntimeError string
  | AssertionError

section \<open>Task dispatch of the multitask explainer (attributions/base.py)\<close>

text \<open>
  \<^verbatim>\<open>str.endswith\<close>: the last \<open>length suf\<close> characters of \<open>s\<close> are \<open>suf\<close>.
\<close>

definition endswith :: "string \<Rightarrow> string \<Rightarrow> bool" where
  "endswith s suf \<longleftrightarrow>
     length suf \<le> length s \<and> drop (length s - length suf) s = suf"

text \<open>
  The two task-specific explainer classes that the factory mixes in, and a class object:
  its \<^verbatim>\<open>__name__\<close> and, when its metaclass is \<^verbatim>\<open>FactoryGeneratedMeta\<close>, the
  task-specific base it was generated with. An instance is represented by its class.
\<close>

datatype task_explainer =
    ClassificationAttributionExplainer
  | GenerationAttributionExplainer

record explainer_class =
  cls_name :: string
  factory_generated :: "task_explainer option"

text \<open>
  \<^verbatim>\<open>FactoryGeneratedMeta(pre + cls.__name__, (cls, base), {})\<close>
\<close>

definition FactoryGeneratedMeta :: "string \<Rightarrow> explainer_class \<Rightarrow> task_explainer \<Rightarrow> explainer_class" where
  "FactoryGeneratedMeta pre c base =
     \<lparr>cls_name = pre @ cls_name c, factory_generated = Some base\<rparr>"

text \<open>
  \<^verbatim>\<open>MultitaskExplainerMixin.__new__(cls, model, ...)\<close>; the model enters only through
  \<^verbatim>\<open>model.__class__.__name__\<close>. The call \<^verbatim>\<open>t.__new__(t, model, ...)\<close> on the generated
  class re-enters the function, where the first test succeeds.
\<close>

function MultitaskExplainerMixin_new :: "explainer_class \<Rightarrow> string \<Rightarrow> error + explainer_class" where
  "MultitaskExplainerMixin_new c model_class_name =
     (if factory_generated c \<noteq> None then Inr c
      else if endswith model_class_name ''ForSequenceClassification'' then
        MultitaskExplainerMixin_new
          (FactoryGeneratedMeta ''Classification'' c ClassificationAttributionExplainer)
          model_class_name
      else if endswith model_class_name ''ForCausalLM''
            \<or> endswith model_class_name ''LMHeadModel'' then
        MultitaskExplainerMixin_new
          (FactoryGeneratedMeta ''Generation'' c GenerationAttributionExplainer)
          model_class_name
      else Inl (NotImplementedError ''Model type not supported for Explainer.''))"
  by pat_completeness auto
termination
  by (relation "measure (\<lambda>(c, m). if factory_generated c = None then 1 else 0)")
     (auto simp: FactoryGeneratedMeta_def)

section \<open>Registration of the replace token (attributions/methods/sobol\_attribution.py)\<close>

text \<open>
  The tokenizer and the model are external collaborators; what the constructor touches is
  the vocabulary (the token at position \<open>i\<close> has id \<open>i\<close>) and the number of rows of the
  model's embedding table.
\<close>

record tokenizer =
  vocab :: "string list"

record pretrained_model =
  num_embeddings :: nat

definition get_vocab :: "tokenizer \<Rightarrow> string set" where
  "get_vocab tok = set (vocab tok)"

text \<open>\<^verbatim>\<open>tokenizer.add_tokens(new)\<close>: the tokens not yet in the vocabulary get the next ids.\<close>

fun add_tokens :: "string list \<Rightarrow> tokenizer \<Rightarrow> tokenizer" where
  "add_tokens [] tok = tok"
| "add_tokens (t # ts) tok =
     add_tokens ts (if t \<in> get_vocab tok then tok else tok\<lparr>vocab := vocab tok @ [t]\<rparr>)"

definition len_tokenizer :: "tokenizer \<Rightarrow> nat" where
  "len_tokenizer tok = length (vocab tok)"

definition resize_token_embeddings :: "nat \<Rightarrow> pretrained_model \<Rightarrow> pretrained_model" where
  "resize_token_embeddings n m = m\<lparr>num_embeddings := n\<rparr>"

fun index_of :: "'a \<Rightarrow> 'a list \<Rightarrow> nat option" where
  "index_of x [] = None"
| "index_of x (y # ys) =
     (if x = y then Some 0 else map_option Suc (index_of x ys))"

text \<open>\<^verbatim>\<open>tokenizer.convert_tokens_to_ids(token)\<close>; \<open>None\<close> stands for the unknown-token id.\<close>

definition convert_tokens_to_ids :: "tokenizer \<Rightarrow> string \<Rightarrow> nat option" where
  "convert_tokens_to_ids tok t = index_of t (vocab tok)"

text \<open>
  The part of \<^verbatim>\<open>SobolAttribution.__init__\<close> that acts on the tokenizer and the model;
  it returns both, with the id handed to the perturbator.
\<close>

definition SobolAttribution_init ::
  "tokenizer \<times> pretrained_model \<Rightarrow> tokenizer \<times> pretrained_model \<times> nat option" where
  "SobolAttribution_init s =
     (let tok = fst s; model = snd s;
          replace_token = ''[REPLACE]'';
          (tok1, model1) =
            (if replace_token \<notin> get_vocab tok then
               (let tok' = add_tokens [replace_token] tok
                in (tok', resize_token_embeddings (len_tokenizer tok') model))
             else (tok, model));
          replace_token_id = convert_tokens_to_ids tok1 replace_token
      in (tok1, model1, replace_token_id))"

text \<open>Constructing a second explainer on what the first one left.\<close>

definition SobolAttribution_init_twice ::
  "tokenizer \<times> pretrained_model \<Rightarrow> tokenizer \<times> pretrained_model \<times> nat option" where
  "SobolAttribution_init_twice s =
     (let (tok1, model1, _) = SobolAttribution_init s
      in SobolAttribution_init (tok1, model1))"

section \<open>Generator tools (commons/generator\_tools.py)\<close>

text \<open>
  The wrapped generator yields tuples; a tuple is the list of its components. A cursor
  is created with a \<^verbatim>\<open>position\<close> that is an \<^verbatim>\<open>int\<close> or a \<^verbatim>\<open>slice\<close>, and
  \<^verbatim>\<open>buffer[index][position]\<close> is a component for an int and a sub-tuple for a slice.
\<close>

datatype position = Pos int | Slice "int option" "int option" "int option"

datatype 'a item = Elem 'a | Tuple "'a list"

text \<open>
  Python's slice on a sequence of length \<open>n\<close> (\<^verbatim>\<open>slice.indices\<close>): a bound that is
  negative counts from the end, a bound outside the sequence is clipped, and a zero step
  raises \<^verbatim>\<open>ValueError\<close>. The result is the list of selected indices.
\<close>

definition adjust_index :: "int \<Rightarrow> int \<Rightarrow> int \<Rightarrow> int" where
  "adjust_index v len step =
     (if v < 0 then
        (if v + len < 0 then (if step < 0 then - 1 else 0) else v + len)
      else if v \<ge> len then (if step < 0 then len - 1 else len)
      else v)"

definition slice_indices :: "int option \<Rightarrow> int option \<Rightarrow> int option \<Rightarrow> nat \<Rightarrow> error + nat list" where
  "slice_indices start stop step n =
     (let st = (case step of None \<Rightarrow> 1 | Some s \<Rightarrow> s); len = int n in
      if st = 0 then Inl (ValueError ''slice step cannot be zero'')
      else
        let lo = (case start of None \<Rightarrow> (if st < 0 then len - 1 else 0)
                   | Some v \<Rightarrow> adjust_index v len st);
            hi = (case stop of None \<Rightarrow> (if st < 0 then - 1 else len)
                   | Some v \<Rightarrow> adjust_index v len st);
            cnt = (if st < 0 then (if hi < lo then (lo - hi - 1) div (- st) + 1 else 0)
                   else (if lo < hi then (hi - lo - 1) div st + 1 else 0))
        in Inr (map (\<lambda>k. nat (lo + int k * st)) [0..<nat cnt]))"

text \<open>\<^verbatim>\<open>t[p]\<close> on a tuple: a negative int counts from the end, an int out of range raises.\<close>

definition tuple_getitem :: "'a list \<Rightarrow> position \<Rightarrow> error + 'a item" where
  "tuple_getitem t p =
     (case p of
        Pos i \<Rightarrow>
          (let j = (if i < 0 then i + int (length t) else i) in
           if 0 \<le> j \<and> j < int (length t) then Inr (Elem (t ! nat j)) else Inl IndexError)
      | Slice start stop step \<Rightarrow>
          (case slice_indices start stop step (length t) of
             Inl e \<Rightarrow> Inl e
           | Inr is \<Rightarrow> Inr (Tuple (map (\<lambda>i. t ! i) is))))"

text \<open>
  \<^verbatim>\<open>PersistentTupleGeneratorWrapper\<close>: \<open>generator\<close> holds what the source will still
  yield, \<open>buffer\<close> what it has yielded. The field \<open>advances\<close> is not in the source: it
  counts the calls \<^verbatim>\<open>next(self.generator)\<close> that returned a tuple. A \<^verbatim>\<open>SubGenerator\<close>
  refers to the wrapper it was made from; the shared wrapper is passed in and returned.
\<close>

record 'a wrapper =
  generator :: "'a list list"
  buffer :: "'a list list"
  index :: nat
  advances :: nat

record subgenerator =
  position :: position
  sub_index :: nat

definition PersistentTupleGeneratorWrapper :: "'a list list \<Rightarrow> 'a wrapper" where
  "PersistentTupleGeneratorWrapper tuple_generator =
     \<lparr>generator = tuple_generator, buffer = [], index = 0, advances = 0\<rparr>"

text \<open>\<^verbatim>\<open>self.buffer.append(next(self.generator))\<close>; an exhausted source raises.\<close>

definition complete_buffer :: "'a wrapper \<Rightarrow> error + 'a wrapper" where
  "complete_buffer w =
     (case generator w of
        [] \<Rightarrow> Inl StopIteration
      | x # xs \<Rightarrow> Inr (w\<lparr>generator := xs, buffer := buffer w @ [x], advances := advances w + 1\<rparr>))"

text \<open>\<^verbatim>\<open>PersistentTupleGeneratorWrapper.__next__\<close>\<close>

definition wrapper_next :: "'a wrapper \<Rightarrow> (error + 'a list) \<times> 'a wrapper" where
  "wrapper_next w =
     (case (if index w \<ge> length (buffer w) then complete_buffer w else Inr w) of
        Inl e \<Rightarrow> (Inl e, w)
      | Inr w' \<Rightarrow>
          (if index w' < length (buffer w')
           then (Inr (buffer w' ! index w'), w'\<lparr>index := index w' + 1\<rparr>)
           else (Inl IndexError, w')))"

text \<open>\<^verbatim>\<open>get_subgenerator\<close>, which \<^verbatim>\<open>__getitem__\<close> calls with the same argument.\<close>

definition get_subgenerator :: "position \<Rightarrow> subgenerator" where
  "get_subgenerator p = \<lparr>position = p, sub_index = 0\<rparr>"

text \<open>
  \<^verbatim>\<open>SubGenerator.__next__\<close>: the result, the wrapper and the cursor after the call. After
  an exception the cursor's index is unchanged; the buffer keeps a tuple already appended.
\<close>

definition SubGenerator_next ::
  "'a wrapper \<Rightarrow> subgenerator \<Rightarrow> (error + 'a item) \<times> 'a wrapper \<times> subgenerator" where
  "SubGenerator_next w g =
     (case (if sub_index g \<ge> length (buffer w) then complete_buffer w else Inr w) of
        Inl e \<Rightarrow> (Inl e, w, g)
      | Inr w' \<Rightarrow>
          (if sub_index g < length (buffer w') then
             (case tuple_getitem (buffer w' ! sub_index g) (position g) of
                Inl e \<Rightarrow> (Inl e, w', g)
              | Inr res \<Rightarrow> (Inr res, w', g\<lparr>sub_index := sub_index g + 1\<rparr>))
           else (Inl IndexError, w', g)))"

text \<open>
  \<^verbatim>\<open>list(cursor)\<close>: the cursor is advanced until it raises \<^verbatim>\<open>StopIteration\<close>; any
  other exception propagates.
\<close>

function drain ::
  "'a wrapper \<Rightarrow> subgenerator \<Rightarrow> 'a item list \<Rightarrow> error + ('a item list \<times> 'a wrapper \<times> subgenerator)" where
  "drain w g acc =
     (case SubGenerator_next w g of
        (Inr res, w', g') \<Rightarrow> drain w' g' (acc @ [res])
      | (Inl StopIteration, w', g') \<Rightarrow> Inr (acc, w', g')
      | (Inl e, w', g') \<Rightarrow> Inl e)"
  by pat_completeness auto
termination
proof (relation "measure (\<lambda>(w, g, acc). length (generator w) + length (buffer w) - sub_index g)")
  show "wf (measure (\<lambda>(w :: 'a wrapper, g, acc :: 'a item list). length (generator w) + length (buffer w) - sub_index g))"
    by simp
next
  fix w :: "'a wrapper" and g acc x1 and w' :: "'a wrapper" and g' res x2
  assume "(x1, x2) = SubGenerator_next w g" "(w', g') = x2" "x1 = Inr res"
  then have "SubGenerator_next w g = (Inr res, w', g')" by simp
  then show "((w', g', acc @ [res]), (w, g, acc))
      \<in> measure (\<lambda>(w, g, acc). length (generator w) + length (buffer w) - sub_index g)"
    by (auto simp: SubGenerator_next_def complete_buffer_def
        split: if_splits list.splits sum.splits)
qed

text \<open>
  Two cursors over one wrapped source of pairs, position 0 and position 1, and a consumer
  that advances them in the order given by a schedule. A cursor that raises
  \<^verbatim>\<open>StopIteration\<close> is marked exhausted; what the cursors returned is collected
  per side.
\<close>

datatype side = First | Second

record 'a fan_out =
  shared :: "'a wrapper"
  cursor_a :: subgenerator
  cursor_b :: subgenerator
  out_a :: "'a item list"
  out_b :: "'a item list"
  exhausted_a :: bool
  exhausted_b :: bool

definition pair_tuple :: "'a \<times> 'a \<Rightarrow> 'a list" where
  "pair_tuple p = [fst p, snd p]"

definition split_pairs :: "('a \<times> 'a) list \<Rightarrow> 'a fan_out" where
  "split_pairs ps =
     \<lparr>shared = PersistentTupleGeneratorWrapper (map pair_tuple ps),
      cursor_a = get_subgenerator (Pos 0),
      cursor_b = get_subgenerator (Pos 1),
      out_a = [], out_b = [], exhausted_a = False, exhausted_b = False\<rparr>"

definition pull :: "side \<Rightarrow> 'a fan_out \<Rightarrow> error + 'a fan_out" where
  "pull s f =
     (case s of
        First \<Rightarrow>
          (case SubGenerator_next (shared f) (cursor_a f) of
             (Inr res, w, g) \<Rightarrow> Inr (f\<lparr>shared := w, cursor_a := g, out_a := out_a f @ [res]\<rparr>)
           | (Inl StopIteration, w, g) \<Rightarrow> Inr (f\<lparr>shared := w, cursor_a := g, exhausted_a := True\<rparr>)
           | (Inl e, w, g) \<Rightarrow> Inl e)
      | Second \<Rightarrow>
          (case SubGenerator_next (shared f) (cursor_b f) of
             (Inr res, w, g) \<Rightarrow> Inr (f\<lparr>shared := w, cursor_b := g, out_b := out_b f @ [res]\<rparr>)
           | (Inl StopIteration, w, g) \<Rightarrow> Inr (f\<lparr>shared := w, cursor_b := g, exhausted_b := True\<rparr>)
           | (Inl e, w, g) \<Rightarrow> Inl e))"

fun consume :: "side list \<Rightarrow> 'a fan_out \<Rightarrow> error + 'a fan_out" where
  "consume [] f = Inr f"
| "consume (s # ss) f = (case pull s f of Inl e \<Rightarrow> Inl e | Inr f' \<Rightarrow> consume ss f')"

text \<open>
  The state reached after \<open>ca\<close> calls on the first cursor and \<open>cb\<close> calls on the second.
\<close>

definition fan_inv :: "('a \<times> 'a) list \<Rightarrow> nat \<Rightarrow> nat \<Rightarrow> 'a fan_out \<Rightarrow> bool" where
  "fan_inv ps ca cb f \<longleftrightarrow>
     buffer (shared f) @ generator (shared f) = map pair_tuple ps
   \<and> advances (shared f) = length (buffer (shared f))
   \<and> position (cursor_a f) = Pos 0 \<and> position (cursor_b f) = Pos 1
   \<and> sub_index (cursor_a f) = min ca (length ps)
   \<and> sub_index (cursor_b f) = min cb (length ps)
   \<and> sub_index (cursor_a f) \<le> length (buffer (shared f))
   \<and> sub_index (cursor_b f) \<le> length (buffer (shared f))
   \<and> out_a f = map (Elem \<circ> fst) (take ca ps)
   \<and> out_b f = map (Elem \<circ> snd) (take cb ps)
   \<and> (exhausted_a f \<longleftrightarrow> length ps < ca)
   \<and> (exhausted_b f \<longleftrightarrow> length ps < cb)"

text \<open>The wrapper after one successful \<open>complete_buffer\<close>.\<close>

definition advance :: "'a wrapper \<Rightarrow> 'a wrapper" where
  "advance w = w\<lparr>generator := tl (generator w), buffer := buffer w @ [hd (generator w)],
                 advances := advances w + 1\<rparr>"

section \<open>Token occlusion (attributions/perturbations/occlusion.py)\<close>

text \<open>
  A token is a string, or Python's \<^verbatim>\<open>None\<close> (the \<^verbatim>\<open>mask_token\<close> of a tokenizer that
  has none). The tokenizer and the embedding module are external: the perturbator holds
  \<^verbatim>\<open>tokenizer.tokenize\<close>, \<^verbatim>\<open>tokenizer.convert_tokens_to_ids\<close> on a list of tokens, and
  the module \<^verbatim>\<open>inputs_embeddings\<close> applied to the tensor of one variation's ids.
\<close>

type_synonym token = "string option"

record ('id, 'emb) TokenOcclusionPerturbator =
  tokenize :: "string \<Rightarrow> string list"
  tokens_to_ids :: "token list \<Rightarrow> 'id list"
  inputs_embeddings :: "'id list \<Rightarrow> 'emb"
  mask_value :: token

text \<open>
  \<^verbatim>\<open>__init__\<close>: \<^verbatim>\<open>self.mask_value = mask_value or tokenizer.mask_token\<close>; \<^verbatim>\<open>None\<close> and
  the empty string are falsy.
\<close>

definition TokenOcclusionPerturbator_init ::
  "(string \<Rightarrow> string list) \<Rightarrow> (token list \<Rightarrow> 'id list) \<Rightarrow> token \<Rightarrow> ('id list \<Rightarrow> 'emb)
     \<Rightarrow> string option \<Rightarrow> ('id, 'emb) TokenOcclusionPerturbator" where
  "TokenOcclusionPerturbator_init tok_tokenize tok_convert tok_mask_token embeddings mask_val =
     \<lparr>tokenize = tok_tokenize, tokens_to_ids = tok_convert, inputs_embeddings = embeddings,
      mask_value = (case mask_val of
                      None \<Rightarrow> tok_mask_token
                    | Some v \<Rightarrow> if v = [] then tok_mask_token else Some v)\<rparr>"

text \<open>\<^verbatim>\<open>torch.eye(n)\<close> as a list of rows.\<close>

definition eye :: "nat \<Rightarrow> real list list" where
  "eye n = map (\<lambda>i. map (\<lambda>j. if i = j then 1 else 0) [0..<n]) [0..<n]"

text \<open>
  \<^verbatim>\<open>torch.stack\<close> on the embedded variations, which all have the same number of ids;
  an empty list raises.
\<close>

definition stack_list :: "'a list \<Rightarrow> error + 'a list" where
  "stack_list xs =
     (if xs = [] then Inl (RuntimeError ''stack expects a non-empty TensorList'') else Inr xs)"

text \<open>
  \<^verbatim>\<open>perturb\<close> registered for \<^verbatim>\<open>str\<close>. The embeddings are the stacked variations with a
  leading dimension of size one (\<^verbatim>\<open>unsqueeze(0)\<close>).
\<close>

definition perturb_str ::
  "('id, 'emb) TokenOcclusionPerturbator \<Rightarrow> string \<Rightarrow> error + ('emb list list \<times> real list list)" where
  "perturb_str self inputs =
     (let tokens = map Some (tokenize self inputs);
          n_perturbations = length tokens;
          variations = map (\<lambda>i. tokens_to_ids self
                              (take i tokens @ [mask_value self] @ drop (i + 1) tokens))
                           [0..<n_perturbations]
      in case stack_list (map (inputs_embeddings self) variations) of
           Inl e \<Rightarrow> Inl e
         | Inr embeddings \<Rightarrow> Inr ([embeddings], eye n_perturbations))"

text \<open>\<^verbatim>\<open>perturb\<close> registered for \<^verbatim>\<open>Iterable\<close>: each item in turn.\<close>

definition perturb_iterable ::
  "('id, 'emb) TokenOcclusionPerturbator \<Rightarrow> string list \<Rightarrow> error + ('emb list list \<times> real list list) list" where
  "perturb_iterable self inputs =
     foldr (\<lambda>item rest. case perturb_str self item of
                Inl e \<Rightarrow> Inl e
              | Inr r \<Rightarrow> (case rest of Inl e \<Rightarrow> Inl e | Inr rs \<Rightarrow> Inr (r # rs)))
       inputs (Inr [])"

text \<open>
  A concrete perturbator for evaluation: one token per character, ids and embeddings are
  the tokens themselves, the tokenizer's mask token is \<open>[MASK]\<close>.
\<close>

definition char_tokenizer :: "(token, token list) TokenOcclusionPerturbator" where
  "char_tokenizer =
     TokenOcclusionPerturbator_init (map (\<lambda>c. [c])) (\<lambda>ts. ts) (Some ''[MASK]'') (\<lambda>ids. ids) None"

section \<open>Tensors\<close>

text \<open>
  A tensor is its shape, its dtype and its elements in row-major order; a tensor is
  well formed when it has as many elements as its shape asks. The type of the elements
  is left open: the operations of this section move elements, compare them
  (\<^verbatim>\<open>argmax\<close>) or combine them with a function they are given, and do no arithmetic
  of their own. Strides and devices are not represented, so \<^verbatim>\<open>view\<close> never fails for
  lack of contiguity and \<^verbatim>\<open>.to(device)\<close> and \<^verbatim>\<open>.cpu()\<close> are the identity.
\<close>

datatype dtype = Float32 | Float64 | Int32 | Int64

record 'a tensor =
  shape :: "nat list"
  dtype :: dtype
  elems :: "'a list"

definition dim :: "'a tensor \<Rightarrow> nat" where
  "dim t = length (shape t)"

definition numel :: "'a tensor \<Rightarrow> nat" where
  "numel t = prod_list (shape t)"

definition well_formed :: "'a tensor \<Rightarrow> bool" where
  "well_formed t \<longleftrightarrow> length (elems t) = prod_list (shape t)"

text \<open>
  \<^verbatim>\<open>torch.result_type\<close> on the dtypes above, for two tensors that both have dimensions.
\<close>

definition promote :: "dtype \<Rightarrow> dtype \<Rightarrow> dtype" where
  "promote a b =
     (if a = Float64 \<or> b = Float64 then Float64
      else if a = Float32 \<or> b = Float32 then Float32
      else if a = Int64 \<or> b = Int64 then Int64
      else Int32)"


definition unsqueeze0 :: "'a tensor \<Rightarrow> 'a tensor" where
  "unsqueeze0 t = t\<lparr>shape := 1 # shape t\<rparr>"

text \<open>
  \<open>chunks m s xs\<close> cuts the first \<open>s * m\<close> elements of \<open>xs\<close> into \<open>s\<close> pieces of
  length \<open>m\<close>: the sub-tensors along the leading dimension.
\<close>

definition chunks :: "nat \<Rightarrow> nat \<Rightarrow> 'a list \<Rightarrow> 'a list list" where
  "chunks m s xs = map (\<lambda>i. take m (drop (i * m) xs)) [0..<s]"

text \<open>
  \<^verbatim>\<open>t.expand(*sizes)\<close>. New dimensions are added in front; an existing dimension keeps its
  size (also written \<open>-1\<close>) or, when its size is one, is repeated. \<open>expand_shape\<close> gives
  the resulting shape from the old dimensions (\<open>None\<close> for a new one) and the sizes
  asked; \<open>expand_elems\<close> repeats the elements, from the old shape padded with ones.
\<close>

fun expand_elems :: "nat list \<Rightarrow> nat list \<Rightarrow> 'a list \<Rightarrow> 'a list" where
  "expand_elems (s # ss) (z # zs) xs =
     (if s = z then concat (map (expand_elems ss zs) (chunks (prod_list ss) s xs))
      else concat (replicate z (expand_elems ss zs xs)))"
| "expand_elems _ _ xs = xs"

fun expand_shape :: "nat option list \<Rightarrow> int list \<Rightarrow> nat list option" where
  "expand_shape [] [] = Some []"
| "expand_shape (d # ds) (z # zs) =
     (case expand_shape ds zs of
        None \<Rightarrow> None
      | Some r \<Rightarrow>
          (case d of
             None \<Rightarrow> (if z < 0 then None else Some (nat z # r))
           | Some s \<Rightarrow>
               (if z = - 1 \<or> z = int s then Some (s # r)
                else if s = 1 \<and> 0 \<le> z then Some (nat z # r)
                else None)))"
| "expand_shape _ _ = None"

definition expand :: "int list \<Rightarrow> 'a tensor \<Rightarrow> error + 'a tensor" where
  "expand sizes t =
     (let new = length sizes - dim t in
      if length sizes < dim t
      then Inl (RuntimeError ''expand: the number of sizes must be at least the number of dimensions'')
      else
        (case expand_shape (replicate new None @ map Some (shape t)) sizes of
           None \<Rightarrow> Inl (RuntimeError ''expand: the expanded size must match the existing size'')
         | Some zs \<Rightarrow>
             Inr (t\<lparr>shape := zs,
                    elems := expand_elems (replicate new 1 @ shape t) zs (elems t)\<rparr>)))"

text \<open>
  \<^verbatim>\<open>t.view(*sizes)\<close>: at most one size is \<open>-1\<close> and is inferred from the number of
  elements (\<^verbatim>\<open>infer_size\<close> of ATen).
\<close>

definition infer_size :: "int list \<Rightarrow> nat \<Rightarrow> error + nat list" where
  "infer_size sizes n =
     (if \<exists>z \<in> set sizes. z < - 1 then Inl (RuntimeError ''invalid shape dimension'')
      else if 1 < length (filter (\<lambda>z. z = - 1) sizes)
      then Inl (RuntimeError ''only one dimension can be inferred'')
      else
        let newsize = prod_list (map nat (filter (\<lambda>z. z \<noteq> - 1) sizes));
            infer = (- 1 \<in> set sizes)
        in if n = newsize \<or> (infer \<and> 0 < newsize \<and> n mod newsize = 0) then
             (if infer \<and> newsize = 0
              then Inl (RuntimeError ''the unspecified dimension size -1 is ambiguous'')
              else Inr (map (\<lambda>z. if z = - 1 then n div newsize else nat z) sizes))
           else Inl (RuntimeError ''shape is invalid for input size''))"

definition view :: "int list \<Rightarrow> 'a tensor \<Rightarrow> error + 'a tensor" where
  "view sizes t =
     (case infer_size sizes (numel t) of
        Inl e \<Rightarrow> Inl e
      | Inr s \<Rightarrow> Inr (t\<lparr>shape := s\<rparr>))"

text \<open>
  \<^verbatim>\<open>t[i]\<close> for an index \<open>i\<close> that is not negative: the \<open>i\<close>-th sub-tensor along the leading dimension.
\<close>

definition select0 :: "nat \<Rightarrow> 'a tensor \<Rightarrow> error + 'a tensor" where
  "select0 i t =
     (case shape t of
        [] \<Rightarrow> Inl IndexError
      | n # rest \<Rightarrow>
          if i < n
          then Inr (t\<lparr>shape := rest,
                     elems := take (prod_list rest) (drop (i * prod_list rest) (elems t))\<rparr>)
          else Inl IndexError)"

text \<open>
  \<^verbatim>\<open>input.gather(-1, index)\<close>: both tensors have the same number of dimensions, the index
  is not larger than the input in any dimension but the last, and
  \<open>out[..., j] = input[..., index[..., j]]\<close>. A 0-D tensor counts as one of shape \<open>[1]\<close>.
\<close>

fun gather_elems :: "nat list \<Rightarrow> nat list \<Rightarrow> 'a list \<Rightarrow> int list \<Rightarrow> 'a list" where
  "gather_elems (l # l' # ls) (i # i' # is) xs idx =
     concat (map (\<lambda>k. gather_elems (l' # ls) (i' # is)
                          (take (prod_list (l' # ls)) (drop (k * prod_list (l' # ls)) xs))
                          (take (prod_list (i' # is)) (drop (k * prod_list (i' # is)) idx)))
                 [0..<i])"
| "gather_elems _ _ xs idx = map (\<lambda>j. xs ! nat j) idx"

definition gather_last :: "'a tensor \<Rightarrow> int tensor \<Rightarrow> error + 'a tensor" where
  "gather_last input idx =
     (let ls = (if shape input = [] then [1] else shape input);
          is = (if shape idx = [] then [1] else shape idx)
      in if dtype idx \<noteq> Int64 then Inl (RuntimeError ''gather: expected dtype int64 for index'')
         else if length ls \<noteq> length is
         then Inl (RuntimeError ''gather: index must have the same number of dimensions as input'')
         else if \<not> list_all2 (\<le>) (butlast is) (butlast ls)
         then Inl (RuntimeError ''gather: size of index exceeds size of input'')
         else if \<exists>j \<in> set (elems idx). j < 0 \<or> int (last ls) \<le> j
         then Inl (RuntimeError ''gather: index out of bounds'')
         else Inr \<lparr>shape = shape idx, dtype = dtype input,
                   elems = gather_elems ls is (elems input) (elems idx)\<rparr>)"

text \<open>
  \<^verbatim>\<open>torch.stack\<close> of a list of tensors along a new leading dimension.
\<close>

definition stack :: "'a tensor list \<Rightarrow> error + 'a tensor" where
  "stack ts =
     (case ts of
        [] \<Rightarrow> Inl (RuntimeError ''stack expects a non-empty TensorList'')
      | t # rest \<Rightarrow>
          if \<forall>u \<in> set rest. shape u = shape t
          then Inr \<lparr>shape = length ts # shape t,
                    dtype = foldl promote (dtype t) (map dtype rest),
                    elems = concat (map elems ts)\<rparr>
          else Inl (RuntimeError ''stack expects each tensor to be equal size''))"

text \<open>
  \<^verbatim>\<open>t.argmax(dim=-1)\<close>: the index of the first maximal value of each row along the last
  dimension.
\<close>

fun argmax_from :: "'a::linorder \<Rightarrow> nat \<Rightarrow> nat \<Rightarrow> 'a list \<Rightarrow> nat" where
  "argmax_from best bi i [] = bi"
| "argmax_from best bi i (x # xs) =
     (if best < x then argmax_from x i (i + 1) xs else argmax_from best bi (i + 1) xs)"

definition argmax_list :: "'a::linorder list \<Rightarrow> nat" where
  "argmax_list xs = (case xs of [] \<Rightarrow> 0 | x # rest \<Rightarrow> argmax_from x 0 1 rest)"

definition argmax_last :: "'a::linorder tensor \<Rightarrow> error + int tensor" where
  "argmax_last t =
     (if shape t = [] then Inr \<lparr>shape = [], dtype = Int64, elems = [0]\<rparr>
      else if last (shape t) = 0 then Inl IndexError
      else Inr \<lparr>shape = butlast (shape t), dtype = Int64,
                elems = map (\<lambda>row. int (argmax_list row))
                          (chunks (last (shape t)) (prod_list (butlast (shape t))) (elems t))\<rparr>)"





text \<open>
  Sequencing of fallible steps: the first error propagates, as an exception does.
\<close>

definition bind_result :: "error + 'a \<Rightarrow> ('a \<Rightarrow> error + 'b) \<Rightarrow> error + 'b" where
  "bind_result r f = (case r of Inl e \<Rightarrow> Inl e | Inr x \<Rightarrow> f x)"

section \<open>Classification inference wrapper (commons/model\_wrapping/classification\_inference\_wrapper.py)\<close>

text \<open>
  \<^verbatim>\<open>ClassificationInferenceWrapper._process_target(target, logits)\<close> (the leading underscore
  of the name is not an Isabelle identifier). The assignment \<^verbatim>\<open>index_shape[-1] = ...\<close>
  and \<^verbatim>\<open>logits.shape[0]\<close> raise \<^verbatim>\<open>IndexError\<close> on a 0-D \<open>logits\<close>.
\<close>

function private_process_target :: "'a tensor \<Rightarrow> 'b tensor \<Rightarrow> error + 'a tensor" where
  "private_process_target target logits =
     (if dim target = 0 then private_process_target (unsqueeze0 target) logits
      else if dim target = 1 then
        (if shape logits = [] then Inl IndexError
         else expand (map int (butlast (shape logits) @ [shape target ! 0])) target)
      else if dim target = 2 then
        (if shape target ! 0 = 1 then
           (if shape logits = [] then Inl IndexError
            else expand [int (shape logits ! 0), - 1] target)
         else Inr target)
      else Inl (ValueError ''Target tensor should have 0, 1 or 2 dimensions''))"
  by pat_completeness auto
termination
  by (relation "measure (\<lambda>(t, l). if dim t = 0 then 1 else 0)")
     (auto simp: unsqueeze0_def dim_def)

text \<open>
  \<^verbatim>\<open>_get_targeted_logits_from_iterable\<close>. The logits that \<^verbatim>\<open>_get_logits_from_iterable\<close>
  produces (the model is external) are the list \<open>predictions\<close>. The generator is
  modelled by what it yields before it stops and by the exception that stops it, if any.
  The loop variable \<^verbatim>\<open>index\<close> is written \<open>ix\<close>; \<^verbatim>\<open>single_index and index\<close> is
  \<open>0\<close> when \<open>single_index\<close> is \<open>0\<close> and \<open>ix\<close> otherwise.
\<close>

fun targeted_logits_loop ::
  "nat \<Rightarrow> nat \<Rightarrow> int tensor \<Rightarrow> 'a tensor list \<Rightarrow> 'a tensor list \<times> error option" where
  "targeted_logits_loop single_index ix targets [] = ([], None)"
| "targeted_logits_loop single_index ix targets (logits # predictions) =
     (case select0 (if single_index = 0 then single_index else ix) targets of
        Inl e \<Rightarrow> ([], Some e)
      | Inr row \<Rightarrow>
          (if shape logits = [] then ([], Some IndexError)
           else
             (case expand [int (shape logits ! 0), - 1] (unsqueeze0 row) of
                Inl e \<Rightarrow> ([], Some e)
              | Inr idx \<Rightarrow>
                  (case gather_last logits idx of
                     Inl e \<Rightarrow> ([], Some e)
                   | Inr res \<Rightarrow>
                       (let (ys, e) = targeted_logits_loop single_index (ix + 1) targets predictions
                        in (res # ys, e))))))"

definition get_targeted_logits_from_iterable ::
  "'a tensor list \<Rightarrow> int tensor \<Rightarrow> 'a tensor list \<times> error option" where
  "get_targeted_logits_from_iterable predictions targets =
     (case (if dim targets = 0 \<or> dim targets = 1 then view [1, - 1] targets else Inr targets) of
        Inl e \<Rightarrow> ([], Some e)
      | Inr targets' \<Rightarrow>
          (let single_index = (if 1 < shape targets' ! 0 then 1 else 0)
           in targeted_logits_loop single_index 0 targets' predictions))"

text \<open>
  In the words of the specification: the logits of one input gathered at the target
  indices \<open>row\<close> along the last axis, the same indices for every row of that input's
  batch; and the \<open>i\<close>-th row of a targets tensor seen as two-dimensional.
\<close>

definition gather_row :: "'a tensor \<Rightarrow> int list \<Rightarrow> 'a tensor" where
  "gather_row logits row =
     \<lparr>shape = [shape logits ! 0, length row], dtype = dtype logits,
      elems = concat (map (\<lambda>r. map (\<lambda>j. r ! nat j) row)
                (chunks (shape logits ! 1) (shape logits ! 0) (elems logits)))\<rparr>"

definition target_row :: "int tensor \<Rightarrow> nat \<Rightarrow> int list" where
  "target_row targets i = take (last (shape targets)) (drop (i * last (shape targets)) (elems targets))"

text \<open>
  Two logits tensors for evaluation.
\<close>

definition logits_a :: "real tensor" where
  "logits_a = \<lparr>shape = [2, 3], dtype = Float32, elems = [10, 11, 12, 20, 21, 22]\<rparr>"

definition logits_b :: "real tensor" where
  "logits_b = \<lparr>shape = [1, 3], dtype = Float32, elems = [30, 31, 32]\<rparr>"

section \<open>Linear interpolation (attributions/perturbations/linear\_interpolation\_perturbation.py)\<close>


datatype 'a baseline = NoneB | IntB int | FloatB 'a | TensorB "'a tensor" | StrB string








text \<open>
  The perturbator object and its \<^verbatim>\<open>__init__\<close>, whose assertion rejects a baseline that
  is not a tensor, a number or \<^verbatim>\<open>None\<close>.
\<close>

record 'a LinearInterpolationPerturbation =
  baseline :: "'a baseline"

definition LinearInterpolationPerturbation_init ::
  "'a baseline \<Rightarrow> error + 'a LinearInterpolationPerturbation" where
  "LinearInterpolationPerturbation_init b =
     (case b of StrB _ \<Rightarrow> Inl AssertionError | _ \<Rightarrow> Inr \<lparr>baseline = b\<rparr>)"






section \<open>Target resolution of the classification explainer (attributions/base.py)\<close>

text \<open>
  Modelled from the spec: \<^verbatim>\<open>ClassificationInferenceWrapper.process_target(targets, batch_dims)\<close>,
  which \<^verbatim>\<open>process_inputs_to_explain_and_targets\<close> calls, is not among the sources (they
  define \<^verbatim>\<open>_process_target(self, target, logits)\<close> only). The specification says:
  "a 0-D target is promoted to 1-D; a 1-D target of length t is repeated across the batch
  dimension; a 2-D target with leading dimension 1 is repeated across batch; any other
  leading-dimension mismatch fails with a dimensionality error", and a target with a
  number of dimensions other than 0, 1 or 2 is a dimensionality error. The batch
  dimension is the first of \<open>batch_dims\<close>.
\<close>

function process_target :: "'a tensor \<Rightarrow> nat list \<Rightarrow> error + 'a tensor" where
  "process_target target batch_dims =
     (if dim target = 0 then process_target (unsqueeze0 target) batch_dims
      else if batch_dims = [] then Inl IndexError
      else if dim target = 1 then expand [int (hd batch_dims), - 1] (unsqueeze0 target)
      else if dim target = 2 then
        (if shape target ! 0 = 1 then expand [int (hd batch_dims), - 1] target
         else if shape target ! 0 = hd batch_dims then Inr target
         else Inl (ValueError ''Target leading dimension does not match the batch''))
      else Inl (ValueError ''Target tensor should have 0, 1 or 2 dimensions''))"
  by pat_completeness auto
termination
  by (relation "measure (\<lambda>(t, l). if dim t = 0 then 1 else 0)")
     (auto simp: unsqueeze0_def dim_def)

text \<open>
  \<^verbatim>\<open>ClassificationAttributionExplainer.process_inputs_to_explain_and_targets\<close>. The
  inference wrapper's \<^verbatim>\<open>get_logits\<close> stands for the external model: it gets a deep copy of
  the inputs, which are therefore returned as they were given.
\<close>

definition process_inputs_to_explain_and_targets ::
  "('inp list \<Rightarrow> error + real tensor list) \<Rightarrow> 'inp list \<Rightarrow> int tensor option
     \<Rightarrow> error + ('inp list \<times> int tensor)" where
  "process_inputs_to_explain_and_targets get_logits model_inputs targets =
     bind_result (get_logits model_inputs) (\<lambda>outputs.
     bind_result (stack outputs) (\<lambda>logits.
     bind_result (case targets of None \<Rightarrow> argmax_last logits | Some t \<Rightarrow> Inr t) (\<lambda>targets.
     bind_result (process_target targets (butlast (shape logits))) (\<lambda>targets.
     Inr (model_inputs, targets)))))"

section \<open>Theorems\<close>

subsection \<open>Task dispatch\<close>

lemma endswith_suffix: "endswith s suf \<longleftrightarrow> suffix suf s"
proof
  assume "endswith s suf"
  then have "s = take (length s - length suf) s @ suf"
    by (metis append_take_drop_id endswith_def)
  then show "suffix suf s" by (metis suffixI)
next
  assume "suffix suf s"
  then obtain zs where "s = zs @ suf" by (auto simp: suffix_def)
  then show "endswith s suf" by (simp add: endswith_def)
qed

lemma classification_not_generation:
  "endswith m ''ForSequenceClassification'' \<Longrightarrow>
     \<not> endswith m ''ForCausalLM'' \<and> \<not> endswith m ''LMHeadModel''"
proof -
  assume a: "endswith m ''ForSequenceClassification''"
  then obtain zs where m: "m = zs @ ''ForSequenceClassification''"
    by (auto simp: endswith_suffix suffix_def)
  show ?thesis
    unfolding m endswith_suffix by (auto simp: suffix_def append_eq_append_conv2 Cons_eq_append_conv append_eq_Cons_conv)
qed

text \<open>
  C7. Constructing a multitask explainer from a class that is not factory-generated
  dispatches on the model's class name: a name ending in \<open>ForSequenceClassification\<close>
  gives an instance of the generated classification explainer, a name ending in
  \<open>ForCausalLM\<close> or \<open>LMHeadModel\<close> gives an instance of the generated generation
  explainer, and every other name fails with \<open>NotImplementedError\<close>.
\<close>

theorem multitask_dispatch:
  assumes "factory_generated c = None"
  shows "(endswith m ''ForSequenceClassification'' \<longrightarrow>
            MultitaskExplainerMixin_new c m =
              Inr \<lparr>cls_name = ''Classification'' @ cls_name c,
                   factory_generated = Some ClassificationAttributionExplainer\<rparr>)
       \<and> (endswith m ''ForCausalLM'' \<or> endswith m ''LMHeadModel'' \<longrightarrow>
            MultitaskExplainerMixin_new c m =
              Inr \<lparr>cls_name = ''Generation'' @ cls_name c,
                   factory_generated = Some GenerationAttributionExplainer\<rparr>)
       \<and> (\<not> endswith m ''ForSequenceClassification'' \<and> \<not> endswith m ''ForCausalLM''
            \<and> \<not> endswith m ''LMHeadModel'' \<longrightarrow>
            (\<exists>msg. MultitaskExplainerMixin_new c m = Inl (NotImplementedError msg)))"
  using assms classification_not_generation [of m]
  by (auto simp: FactoryGeneratedMeta_def)

theorem multitask_dispatch_witness:
  "MultitaskExplainerMixin_new \<lparr>cls_name = ''SobolAttribution'', factory_generated = None\<rparr>
       ''BertForSequenceClassification''
     = Inr \<lparr>cls_name = ''ClassificationSobolAttribution'',
            factory_generated = Some ClassificationAttributionExplainer\<rparr>
   \<and> MultitaskExplainerMixin_new \<lparr>cls_name = ''SobolAttribution'', factory_generated = None\<rparr>
       ''GPT2LMHeadModel''
     = Inr \<lparr>cls_name = ''GenerationSobolAttribution'',
            factory_generated = Some GenerationAttributionExplainer\<rparr>
   \<and> (\<exists>msg. MultitaskExplainerMixin_new \<lparr>cls_name = ''SobolAttribution'', factory_generated = None\<rparr>
       ''BertForMaskedLM'' = Inl (NotImplementedError msg))"
  using multitask_dispatch [of "\<lparr>cls_name = ''SobolAttribution'', factory_generated = None\<rparr>"
          "''BertForSequenceClassification''"]
        multitask_dispatch [of "\<lparr>cls_name = ''SobolAttribution'', factory_generated = None\<rparr>"
          "''GPT2LMHeadModel''"]
        multitask_dispatch [of "\<lparr>cls_name = ''SobolAttribution'', factory_generated = None\<rparr>"
          "''BertForMaskedLM''"]
  by (simp add: endswith_def)

subsection \<open>Replace-token registration\<close>

lemma replace_token_registered:
  "''[REPLACE]'' \<in> get_vocab (fst (SobolAttribution_init s))"
  by (cases s) (simp add: SobolAttribution_init_def get_vocab_def Let_def)

text \<open>
  C9. The constructor adds \<open>[REPLACE]\<close> to the tokenizer and resizes the embedding table
  to the new vocabulary size exactly when the token is not yet in the vocabulary, and
  otherwise leaves both untouched; a second construction on the same tokenizer and model
  changes neither, so vocabulary size and embedding-table size stay what the first
  construction left.
\<close>

theorem sobol_replace_token_idempotent:
  "(''[REPLACE]'' \<notin> get_vocab tok \<longrightarrow>
      fst (SobolAttribution_init (tok, m)) = tok\<lparr>vocab := vocab tok @ [''[REPLACE]'']\<rparr>
    \<and> fst (snd (SobolAttribution_init (tok, m))) = m\<lparr>num_embeddings := length (vocab tok) + 1\<rparr>)
 \<and> (''[REPLACE]'' \<in> get_vocab tok \<longrightarrow>
      fst (SobolAttribution_init (tok, m)) = tok
    \<and> fst (snd (SobolAttribution_init (tok, m))) = m)
 \<and> SobolAttribution_init_twice (tok, m) = SobolAttribution_init (tok, m)
 \<and> len_tokenizer (fst (SobolAttribution_init_twice (tok, m)))
     = len_tokenizer (fst (SobolAttribution_init (tok, m)))
 \<and> num_embeddings (fst (snd (SobolAttribution_init_twice (tok, m))))
     = num_embeddings (fst (snd (SobolAttribution_init (tok, m))))"
proof -
  have twice: "SobolAttribution_init_twice (tok, m) = SobolAttribution_init (tok, m)"
    by (simp add: SobolAttribution_init_twice_def SobolAttribution_init_def get_vocab_def
        Let_def convert_tokens_to_ids_def)
  show ?thesis
    unfolding twice
    by (simp add: SobolAttribution_init_def get_vocab_def Let_def len_tokenizer_def
        resize_token_embeddings_def)
qed

theorem sobol_replace_token_idempotent_witness:
  "fst (SobolAttribution_init (\<lparr>vocab = [''[PAD]'', ''a'']\<rparr>, \<lparr>num_embeddings = 2\<rparr>))
     = \<lparr>vocab = [''[PAD]'', ''a'', ''[REPLACE]'']\<rparr>
   \<and> fst (snd (SobolAttribution_init (\<lparr>vocab = [''[PAD]'', ''a'']\<rparr>, \<lparr>num_embeddings = 2\<rparr>)))
     = \<lparr>num_embeddings = 3\<rparr>
   \<and> fst (SobolAttribution_init (\<lparr>vocab = [''[REPLACE]'', ''a'']\<rparr>, \<lparr>num_embeddings = 7\<rparr>))
     = \<lparr>vocab = [''[REPLACE]'', ''a'']\<rparr>
   \<and> fst (snd (SobolAttribution_init (\<lparr>vocab = [''[REPLACE]'', ''a'']\<rparr>, \<lparr>num_embeddings = 7\<rparr>)))
     = \<lparr>num_embeddings = 7\<rparr>"
  using sobol_replace_token_idempotent [of "\<lparr>vocab = [''[PAD]'', ''a'']\<rparr>" "\<lparr>num_embeddings = 2\<rparr>"]
        sobol_replace_token_idempotent [of "\<lparr>vocab = [''[REPLACE]'', ''a'']\<rparr>" "\<lparr>num_embeddings = 7\<rparr>"]
  by (simp add: get_vocab_def)

subsection \<open>Generator tools\<close>

lemma fan_inv_init: "fan_inv ps 0 0 (split_pairs ps)"
  by (simp add: fan_inv_def split_pairs_def PersistentTupleGeneratorWrapper_def get_subgenerator_def)

lemma buffer_nth:
  assumes "buffer w @ generator w = map pair_tuple ps" "i < length (buffer w)"
  shows "buffer w ! i = pair_tuple (ps ! i)" "i < length ps"
proof -
  have "length (buffer w) \<le> length ps"
    using assms(1) by (metis length_append length_map le_add1)
  then show "i < length ps" using assms(2) by simp
  then show "buffer w ! i = pair_tuple (ps ! i)"
    using assms by (metis nth_append nth_map)
qed

lemma next_hit:
  assumes "sub_index g < length (buffer w)"
  shows "SubGenerator_next w g =
     (case tuple_getitem (buffer w ! sub_index g) (position g) of
        Inl e \<Rightarrow> (Inl e, w, g)
      | Inr res \<Rightarrow> (Inr res, w, g\<lparr>sub_index := sub_index g + 1\<rparr>))"
  using assms by (simp add: SubGenerator_next_def)

lemma next_miss:
  assumes "sub_index g = length (buffer w)" "generator w \<noteq> []"
  shows "SubGenerator_next w g =
     (case tuple_getitem (hd (generator w)) (position g) of
        Inl e \<Rightarrow> (Inl e, advance w, g)
      | Inr res \<Rightarrow> (Inr res, advance w, g\<lparr>sub_index := sub_index g + 1\<rparr>))"
  using assms
  by (cases "generator w")
     (auto simp: SubGenerator_next_def complete_buffer_def advance_def split: sum.splits)

lemma next_stop:
  assumes "sub_index g \<ge> length (buffer w)" "generator w = []"
  shows "SubGenerator_next w g = (Inl StopIteration, w, g)"
  using assms by (simp add: SubGenerator_next_def complete_buffer_def)

lemma getitem_pair:
  "tuple_getitem (pair_tuple p) (Pos 0) = Inr (Elem (fst p))"
  "tuple_getitem (pair_tuple p) (Pos 1) = Inr (Elem (snd p))"
  by (simp_all add: tuple_getitem_def pair_tuple_def)

lemma cursor_step:
  assumes src: "buffer w @ generator w = map pair_tuple ps"
    and le: "sub_index g \<le> length (buffer w)"
    and adv: "advances w = length (buffer w)"
    and pos: "position g = Pos k" "\<And>p. tuple_getitem (pair_tuple p) (Pos k) = Inr (Elem (sel p))"
  shows "\<exists>w'. buffer w' @ generator w' = map pair_tuple ps
           \<and> advances w' = length (buffer w') \<and> length (buffer w) \<le> length (buffer w')
           \<and> (if sub_index g < length ps
               then SubGenerator_next w g
                    = (Inr (Elem (sel (ps ! sub_index g))), w', g\<lparr>sub_index := sub_index g + 1\<rparr>)
                  \<and> sub_index g < length (buffer w')
               else SubGenerator_next w g = (Inl StopIteration, w', g) \<and> w' = w)"
proof (cases "sub_index g < length (buffer w)")
  case True
  then have "buffer w ! sub_index g = pair_tuple (ps ! sub_index g)" "sub_index g < length ps"
    using buffer_nth [OF src] by auto
  then show ?thesis
    using True src adv pos by (intro exI [of _ w]) (simp add: next_hit)
next
  case False
  then have eq: "sub_index g = length (buffer w)" using le by simp
  show ?thesis
  proof (cases "generator w")
    case Nil
    then have "length (buffer w) = length ps" using src by (metis append_Nil2 length_map)
    then show ?thesis
      using Nil eq src adv by (intro exI [of _ w]) (simp add: next_stop)
  next
    case (Cons x xs)
    have len: "length (buffer w) < length ps"
      using src Cons by (metis length_append length_map length_Cons less_add_Suc1 add_Suc_right)
    have "map pair_tuple ps ! length (buffer w) = x"
      using src Cons by (metis nth_append_length)
    then have x: "x = pair_tuple (ps ! sub_index g)" using len eq by simp
    show ?thesis
      using Cons eq src adv pos len x
      by (intro exI [of _ "advance w"]) (simp add: next_miss advance_def)
  qed
qed

lemma pull_first:
  assumes "fan_inv ps ca cb f"
  shows "\<exists>f'. pull First f = Inr f' \<and> fan_inv ps (Suc ca) cb f'"
proof -
  let ?g = "cursor_a f" and ?w = "shared f"
  from assms have src: "buffer ?w @ generator ?w = map pair_tuple ps"
    and le: "sub_index ?g \<le> length (buffer ?w)" and adv: "advances ?w = length (buffer ?w)"
    and pos: "position ?g = Pos 0" and idx: "sub_index ?g = min ca (length ps)"
    by (simp_all add: fan_inv_def)
  from cursor_step [where sel = fst, OF src le adv pos getitem_pair(1)]
  obtain w' where w': "buffer w' @ generator w' = map pair_tuple ps"
     "advances w' = length (buffer w')" "length (buffer ?w) \<le> length (buffer w')"
     "if sub_index ?g < length ps
               then SubGenerator_next ?w ?g
                    = (Inr (Elem (fst (ps ! sub_index ?g))), w', ?g\<lparr>sub_index := sub_index ?g + 1\<rparr>)
                  \<and> sub_index ?g < length (buffer w')
               else SubGenerator_next ?w ?g = (Inl StopIteration, w', ?g) \<and> w' = ?w"
    by blast
  show ?thesis
  proof (cases "sub_index ?g < length ps")
    case True
    then have ca: "ca < length ps" "sub_index ?g = ca" using idx by auto
    show ?thesis using assms w' True ca
      by (simp add: pull_def fan_inv_def take_Suc_conv_app_nth)
  next
    case False
    then have ca: "length ps \<le> ca" using idx by auto
    show ?thesis using assms w' False ca
      by (simp add: pull_def fan_inv_def)
  qed
qed

lemma pull_second:
  assumes "fan_inv ps ca cb f"
  shows "\<exists>f'. pull Second f = Inr f' \<and> fan_inv ps ca (Suc cb) f'"
proof -
  let ?g = "cursor_b f" and ?w = "shared f"
  from assms have src: "buffer ?w @ generator ?w = map pair_tuple ps"
    and le: "sub_index ?g \<le> length (buffer ?w)" and adv: "advances ?w = length (buffer ?w)"
    and pos: "position ?g = Pos 1" and idx: "sub_index ?g = min cb (length ps)"
    by (simp_all add: fan_inv_def)
  from cursor_step [where sel = snd, OF src le adv pos getitem_pair(2)]
  obtain w' where w': "buffer w' @ generator w' = map pair_tuple ps"
     "advances w' = length (buffer w')" "length (buffer ?w) \<le> length (buffer w')"
     "if sub_index ?g < length ps
               then SubGenerator_next ?w ?g
                    = (Inr (Elem (snd (ps ! sub_index ?g))), w', ?g\<lparr>sub_index := sub_index ?g + 1\<rparr>)
                  \<and> sub_index ?g < length (buffer w')
               else SubGenerator_next ?w ?g = (Inl StopIteration, w', ?g) \<and> w' = ?w"
    by blast
  show ?thesis
  proof (cases "sub_index ?g < length ps")
    case True
    then have cb: "cb < length ps" "sub_index ?g = cb" using idx by auto
    show ?thesis using assms w' True cb
      by (simp add: pull_def fan_inv_def take_Suc_conv_app_nth)
  next
    case False
    then have cb: "length ps \<le> cb" using idx by auto
    show ?thesis using assms w' False cb
      by (simp add: pull_def fan_inv_def)
  qed
qed

lemma consume_inv:
  "fan_inv ps ca cb f \<Longrightarrow>
     \<exists>f'. consume sched f = Inr f'
       \<and> fan_inv ps (ca + count_list sched First) (cb + count_list sched Second) f'"
proof (induction sched arbitrary: ca cb f)
  case Nil
  then show ?case by simp
next
  case (Cons s ss)
  show ?case
  proof (cases s)
    case First
    from pull_first [OF Cons.prems] obtain f1 where
      f1: "pull First f = Inr f1" "fan_inv ps (Suc ca) cb f1" by blast
    from Cons.IH [OF f1(2)] show ?thesis using f1(1) First by simp
  next
    case Second
    from pull_second [OF Cons.prems] obtain f1 where
      f1: "pull Second f = Inr f1" "fan_inv ps ca (Suc cb) f1" by blast
    from Cons.IH [OF f1(2)] show ?thesis using f1(1) Second by simp
  qed
qed

text \<open>
  C2. For every finite source of \<open>n\<close> pairs and every order in which the two cursors are
  advanced, the consumer never fails; a cursor is exhausted exactly when it was advanced
  more than \<open>n\<close> times, and an exhausted cursor has returned the \<open>n\<close> first (respectively
  second) components in source order. The source was advanced successfully once per
  buffer index (\<open>advances = length buffer\<close>, the buffer being a prefix of the source),
  hence at most \<open>n\<close> times, and exactly \<open>n\<close> times once a cursor is exhausted.
\<close>

theorem fan_out_drained:
  "\<exists>f. consume sched (split_pairs ps) = Inr f
     \<and> (exhausted_a f \<longleftrightarrow> length ps < count_list sched First)
     \<and> (exhausted_b f \<longleftrightarrow> length ps < count_list sched Second)
     \<and> (exhausted_a f \<longrightarrow> out_a f = map (Elem \<circ> fst) ps)
     \<and> (exhausted_b f \<longrightarrow> out_b f = map (Elem \<circ> snd) ps)
     \<and> advances (shared f) = length (buffer (shared f))
     \<and> advances (shared f) \<le> length ps
     \<and> (exhausted_a f \<or> exhausted_b f \<longrightarrow> advances (shared f) = length ps)
     \<and> buffer (shared f) = take (advances (shared f)) (map pair_tuple ps)"
proof -
  from consume_inv [OF fan_inv_init, of sched ps] obtain f where
    f: "consume sched (split_pairs ps) = Inr f"
       "fan_inv ps (count_list sched First) (count_list sched Second) f" by auto
  from f(2) have src: "buffer (shared f) @ generator (shared f) = map pair_tuple ps"
    by (simp add: fan_inv_def)
  then have "length (buffer (shared f)) \<le> length ps"
    by (metis length_append length_map le_add1)
  moreover have "buffer (shared f) = take (length (buffer (shared f))) (map pair_tuple ps)"
    using src by (metis append_eq_conv_conj)
  ultimately show ?thesis using f by (auto simp: fan_inv_def)
qed

theorem fan_out_drained_witness:
  "\<exists>f. consume [First, Second, Second, First, First, Second] (split_pairs [(1::int, 2), (3, 4)]) = Inr f
     \<and> exhausted_a f \<and> exhausted_b f
     \<and> out_a f = [Elem 1, Elem 3] \<and> out_b f = [Elem 2, Elem 4]
     \<and> advances (shared f) = 2 \<and> buffer (shared f) = [[1, 2], [3, 4]]"
  using fan_out_drained [of "[First, Second, Second, First, First, Second]" "[(1::int, 2), (3, 4)]"]
  by (auto simp: pair_tuple_def)

lemma div_mult_le_int:
  fixes k a s :: int
  assumes "0 < s" "k \<le> a div s"
  shows "k * s \<le> a"
proof -
  have "k * s \<le> (a div s) * s" using assms by (simp add: mult_right_mono)
  also have "\<dots> \<le> a" using assms(1)
    by (metis mult.commute pos_mod_sign add_le_cancel_left mult_div_mod_eq add.right_neutral)
  finally show ?thesis .
qed

lemma adjust_index_range:
  assumes "0 \<le> len"
  shows "(0 < step \<longrightarrow> 0 \<le> adjust_index v len step \<and> adjust_index v len step \<le> len)
       \<and> (step < 0 \<longrightarrow> - 1 \<le> adjust_index v len step \<and> adjust_index v len step \<le> len - 1)"
  using assms by (auto simp: adjust_index_def)

lemma slice_indices_bound:
  assumes "slice_indices start stop step n = Inr is" "i \<in> set is"
  shows "i < n"
proof -
  define st where "st = (case step of None \<Rightarrow> 1 | Some s \<Rightarrow> s)"
  define len where "len = int n"
  define lo where "lo = (case start of None \<Rightarrow> (if st < 0 then len - 1 else 0)
                   | Some v \<Rightarrow> adjust_index v len st)"
  define hi where "hi = (case stop of None \<Rightarrow> (if st < 0 then - 1 else len)
                   | Some v \<Rightarrow> adjust_index v len st)"
  define cnt where "cnt = (if st < 0 then (if hi < lo then (lo - hi - 1) div (- st) + 1 else 0)
                   else (if lo < hi then (hi - lo - 1) div st + 1 else 0))"
  have "slice_indices start stop step n =
      (if st = 0 then Inl (ValueError ''slice step cannot be zero'')
       else Inr (map (\<lambda>k. nat (lo + int k * st)) [0..<nat cnt]))"
    unfolding slice_indices_def Let_def st_def len_def lo_def hi_def cnt_def by (rule refl)
  then have st0: "st \<noteq> 0" and is_def: "is = map (\<lambda>k. nat (lo + int k * st)) [0..<nat cnt]"
    using assms(1) by (auto split: if_splits)
  from assms(2) is_def obtain k where k: "k < nat cnt" "i = nat (lo + int k * st)" by auto
  have len0: "0 \<le> len" by (simp add: len_def)
  show ?thesis
  proof (cases "0 < st")
    case True
    have lo: "0 \<le> lo" "lo \<le> len" and hi: "hi \<le> len"
      using True adjust_index_range [OF len0, of st] len0
      by (auto simp: lo_def hi_def split: option.splits)
    from k(1) True have lt: "lo < hi" and kk: "int k \<le> (hi - lo - 1) div st"
      by (auto simp: cnt_def split: if_splits)
    from div_mult_le_int [OF True kk] have "lo + int k * st < hi" by simp
    moreover have "0 \<le> lo + int k * st" using lo True by simp
    ultimately show ?thesis using k(2) hi by (simp add: len_def)
  next
    case False
    then have neg: "st < 0" using st0 by simp
    have lo: "lo \<le> len - 1" and hi: "- 1 \<le> hi"
      using neg adjust_index_range [OF len0, of st] len0
      by (auto simp: lo_def hi_def split: option.splits)
    from k(1) neg have lt: "hi < lo" and kk: "int k \<le> (lo - hi - 1) div (- st)"
      by (auto simp: cnt_def split: if_splits)
    from div_mult_le_int [OF _ kk] neg have "int k * (- st) \<le> lo - hi - 1" by simp
    then have "hi < lo + int k * st" by simp
    moreover have "int k * st \<le> 0" using neg by (simp add: mult_nonneg_nonpos)
    ultimately show ?thesis using k(2) hi lo by (simp add: len_def)
  qed
qed

lemma slice_getitem_ok:
  assumes "step \<noteq> Some 0"
  shows "\<exists>is. slice_indices start stop step (length t) = Inr is
            \<and> tuple_getitem t (Slice start stop step) = Inr (Tuple (map ((!) t) is))"
  using assms by (auto simp: tuple_getitem_def slice_indices_def Let_def split: option.splits)

lemma drain_total:
  assumes "\<forall>t \<in> set (buffer w @ generator w). tuple_getitem t (position g) = Inr (f t)"
    and "sub_index g \<le> length (buffer w)"
  shows "\<exists>w' g'. drain w g acc
            = Inr (acc @ map f (drop (sub_index g) (buffer w @ generator w)), w', g')
          \<and> buffer w' = buffer w @ generator w \<and> generator w' = []
          \<and> sub_index g' = length (buffer w') \<and> position g' = position g
          \<and> advances w' = advances w + length (generator w)"
  using assms
proof (induction w g acc rule: drain.induct)
  case (1 w g acc)
  show ?case
  proof (cases "sub_index g < length (buffer w)")
    case True
    let ?t = "buffer w ! sub_index g"
    have t: "tuple_getitem ?t (position g) = Inr (f ?t)"
      using "1.prems"(1) True by simp
    have nxt: "SubGenerator_next w g = (Inr (f ?t), w, g\<lparr>sub_index := sub_index g + 1\<rparr>)"
      using True t by (simp add: next_hit)
    have dr: "drop (sub_index g) (buffer w @ generator w)
        = ?t # drop (Suc (sub_index g)) (buffer w @ generator w)"
      using True by (metis Cons_nth_drop_Suc length_append nth_append trans_less_add1)
    from "1.IH" [OF nxt [symmetric] refl refl] "1.prems" True nxt dr
    show ?thesis by (subst drain.simps) auto
  next
    case False
    then have eq: "sub_index g = length (buffer w)" using "1.prems"(2) by simp
    show ?thesis
    proof (cases "generator w")
      case Nil
      then show ?thesis using eq
        by (subst drain.simps) (simp add: next_stop)
    next
      case (Cons x xs)
      have t: "tuple_getitem x (position g) = Inr (f x)"
        using "1.prems"(1) Cons by simp
      have nxt: "SubGenerator_next w g = (Inr (f x), advance w, g\<lparr>sub_index := sub_index g + 1\<rparr>)"
        using Cons eq t by (simp add: next_miss)
      have p1: "\<forall>t \<in> set (buffer (advance w) @ generator (advance w)).
                  tuple_getitem t (position (g\<lparr>sub_index := sub_index g + 1\<rparr>)) = Inr (f t)"
        using "1.prems"(1) Cons by (simp add: advance_def)
      have p2: "sub_index (g\<lparr>sub_index := sub_index g + 1\<rparr>) \<le> length (buffer (advance w))"
        using eq by (simp add: advance_def)
      from "1.IH" [OF nxt [symmetric] refl refl p1 p2] Cons eq nxt
      show ?thesis by (subst drain.simps) (auto simp: advance_def)
    qed
  qed
qed

text \<open>
  C3 (amended). A cursor made with a slice (of non-zero step) runs over the whole
  produced sequence from index 0: drained, it returns one item per source tuple, the
  \<open>i\<close>-th item being the slice of the \<open>i\<close>-th tuple, that is the sub-tuple of its
  components at the indices the slice selects. The slice acts on the components of each
  tuple, not on the sequence.
\<close>

theorem slice_cursor_per_tuple:
  assumes "step \<noteq> Some 0"
  shows "\<exists>outs w g. drain (PersistentTupleGeneratorWrapper src)
                      (get_subgenerator (Slice start stop step)) [] = Inr (outs, w, g)
     \<and> length outs = length src
     \<and> buffer w = src \<and> advances w = length src
     \<and> (\<forall>i < length src.
           tuple_getitem (src ! i) (Slice start stop step) = Inr (outs ! i)
         \<and> (\<exists>is. slice_indices start stop step (length (src ! i)) = Inr is
                \<and> (\<forall>j \<in> set is. j < length (src ! i))
                \<and> outs ! i = Tuple (map ((!) (src ! i)) is)))"
proof -
  define f :: "'a list \<Rightarrow> 'a item" where
    "f t = (case tuple_getitem t (Slice start stop step) of Inr r \<Rightarrow> r | Inl _ \<Rightarrow> Tuple [])" for t
  have ok: "tuple_getitem t (Slice start stop step) = Inr (f t)" for t :: "'a list"
    using slice_getitem_ok [OF assms, of start stop t] by (auto simp: f_def)
  let ?w = "PersistentTupleGeneratorWrapper src"
  let ?g = "get_subgenerator (Slice start stop step)"
  have "\<forall>t \<in> set (buffer ?w @ generator ?w). tuple_getitem t (position ?g) = Inr (f t)"
    using ok by (simp add: get_subgenerator_def)
  moreover have "sub_index ?g \<le> length (buffer ?w)" by (simp add: get_subgenerator_def)
  ultimately obtain w' g' where
    d: "drain ?w ?g [] = Inr ([] @ map f (drop (sub_index ?g) (buffer ?w @ generator ?w)), w', g')"
      "buffer w' = buffer ?w @ generator ?w" "advances w' = advances ?w + length (generator ?w)"
    using drain_total [of ?w ?g f "[]"] by blast
  have outs: "drain ?w ?g [] = Inr (map f src, w', g')" "buffer w' = src" "advances w' = length src"
    using d by (simp_all add: PersistentTupleGeneratorWrapper_def get_subgenerator_def)
  have "\<exists>is. slice_indices start stop step (length t) = Inr is
                \<and> (\<forall>j \<in> set is. j < length t) \<and> f t = Tuple (map ((!) t) is)" for t :: "'a list"
    using slice_getitem_ok [OF assms, of start stop t] ok [of t] slice_indices_bound
    by (metis Inr_inject)
  then show ?thesis using outs ok by (intro exI [of _ "map f src"] exI [of _ w'] exI [of _ g']) simp
qed

theorem slice_cursor_per_tuple_witness:
  "\<exists>outs w g. drain (PersistentTupleGeneratorWrapper [[1::int, 2, 3], [4, 5, 6]])
                      (get_subgenerator (Slice (Some 1) None None)) [] = Inr (outs, w, g)
     \<and> outs = [Tuple [2, 3], Tuple [5, 6]] \<and> buffer w = [[1, 2, 3], [4, 5, 6]]"
proof -
  have h: "(None :: int option) \<noteq> Some 0" by simp
  from slice_cursor_per_tuple [OF h, where src = "[[1::int, 2, 3], [4, 5, 6]]" and start = "Some 1" and stop = None]
  obtain outs w g where
    d: "drain (PersistentTupleGeneratorWrapper [[1::int, 2, 3], [4, 5, 6]])
          (get_subgenerator (Slice (Some 1) None None)) [] = Inr (outs, w, g)"
       "length outs = 2" "buffer w = [[1, 2, 3], [4, 5, 6]]"
       "\<forall>i < 2. tuple_getitem ([[1::int, 2, 3], [4, 5, 6]] ! i) (Slice (Some 1) None None) = Inr (outs ! i)"
    by auto
  have "tuple_getitem [1::int, 2, 3] (Slice (Some 1) None None) = Inr (outs ! 0)"
       "tuple_getitem [4::int, 5, 6] (Slice (Some 1) None None) = Inr (outs ! 1)"
    using d(4) by (auto dest: spec [of _ 0]) (auto dest: spec [of _ 1])
  then have "outs ! 0 = Tuple [2, 3]" "outs ! 1 = Tuple [5, 6]"
    by (simp_all add: tuple_getitem_def slice_indices_def adjust_index_def Let_def upt_rec)
  then have "outs = [Tuple [2, 3], Tuple [5, 6]]"
    using d(2) by (intro nth_equalityI) (auto simp: less_Suc_eq numeral_2_eq_2)
  then show ?thesis using d by blast
qed

text \<open>
  C3 as stated fails: over the source \<open>(1,2), (3,4), (5,6)\<close> the cursor made with the
  slice \<open>1:2\<close> returns three sub-tuples, one per source tuple, whereas the sub-range
  \<open>1:2\<close> of the produced sequence is the single tuple \<open>(3,4)\<close>.
\<close>

theorem slice_cursor_counterexample:
  "map_sum id fst
     (drain (PersistentTupleGeneratorWrapper [[1::int, 2], [3, 4], [5, 6]])
        (get_subgenerator (Slice (Some 1) (Some 2) None)) [])
     = Inr [Tuple [2], Tuple [4], Tuple [6]]
   \<and> tuple_getitem [[1::int, 2], [3, 4], [5, 6]] (Slice (Some 1) (Some 2) None)
     = Inr (Tuple [[3, 4]])
   \<and> [Tuple [2], Tuple [4], Tuple [6]] \<noteq> map Tuple [[3::int, 4]]"
  by (simp add: PersistentTupleGeneratorWrapper_def get_subgenerator_def SubGenerator_next_def
      complete_buffer_def tuple_getitem_def slice_indices_def adjust_index_def Let_def upt_rec)

subsection \<open>Token occlusion\<close>

lemma take_mask_drop:
  "i < length xs \<Longrightarrow> take i xs @ [m] @ drop (i + 1) xs = xs[i := m]"
  by (simp add: upd_conv_take_nth_drop)

lemma eye_entries:
  "length (eye n) = n"
  "i < n \<Longrightarrow> length (eye n ! i) = n"
  "i < n \<Longrightarrow> j < n \<Longrightarrow> eye n ! i ! j = (if i = j then 1 else 0)"
  by (simp_all add: eye_def)

text \<open>
  C1 (amended). For every sentence that tokenizes to \<open>l \<ge> 1\<close> tokens, \<open>perturb\<close> returns
  exactly \<open>l\<close> variants, variant \<open>i\<close> (\<open>0 \<le> i < l\<close>) being the embedding of the tokens with
  token \<open>i\<close> replaced by the mask value, and the mask is the \<open>l \<times> l\<close> identity matrix,
  with no row of zeros above it.
\<close>

theorem occlusion_perturb:
  assumes "tokenize self inputs \<noteq> []"
  shows "\<exists>variants. perturb_str self inputs
            = Inr ([variants], eye (length (tokenize self inputs)))
     \<and> length variants = length (tokenize self inputs)
     \<and> (\<forall>i < length (tokenize self inputs).
           variants ! i = inputs_embeddings self
              (tokens_to_ids self ((map Some (tokenize self inputs))[i := mask_value self])))
     \<and> length (eye (length (tokenize self inputs))) = length (tokenize self inputs)
     \<and> (\<forall>i < length (tokenize self inputs).
           length (eye (length (tokenize self inputs)) ! i) = length (tokenize self inputs)
         \<and> (\<forall>j < length (tokenize self inputs).
               eye (length (tokenize self inputs)) ! i ! j = (if i = j then 1 else 0)))"
  using assms
  by (simp add: perturb_str_def stack_list_def Let_def eye_entries upd_conv_take_nth_drop)

theorem occlusion_perturb_witness:
  "perturb_str char_tokenizer ''ab''
     = Inr ([[[Some ''[MASK]'', Some ''b''], [Some ''a'', Some ''[MASK]'']]], [[1, 0], [0, 1]])"
proof -
  have h: "tokenize char_tokenizer ''ab'' \<noteq> []"
    by (simp add: char_tokenizer_def TokenOcclusionPerturbator_init_def)
  from occlusion_perturb [OF h] obtain variants where
    v: "perturb_str char_tokenizer ''ab'' = Inr ([variants], eye (length (tokenize char_tokenizer ''ab'')))"
      "length variants = length (tokenize char_tokenizer ''ab'')"
      "\<forall>i < length (tokenize char_tokenizer ''ab'').
           variants ! i = inputs_embeddings char_tokenizer
              (tokens_to_ids char_tokenizer ((map Some (tokenize char_tokenizer ''ab''))[i := mask_value char_tokenizer]))"
    by blast
  have l: "length variants = 2" using v(2)
    by (simp add: char_tokenizer_def TokenOcclusionPerturbator_init_def)
  have "variants ! 0 = [Some ''[MASK]'', Some ''b'']" "variants ! 1 = [Some ''a'', Some ''[MASK]'']"
    using v(3) by (simp_all add: char_tokenizer_def TokenOcclusionPerturbator_init_def)
  then have "variants = [[Some ''[MASK]'', Some ''b''], [Some ''a'', Some ''[MASK]'']]"
    using l by (intro nth_equalityI) (auto simp: less_Suc_eq numeral_2_eq_2)
  then show ?thesis using v(1)
    by (simp add: char_tokenizer_def TokenOcclusionPerturbator_init_def eye_def upt_rec)
qed

text \<open>
  C1 as stated fails: for the sentence \<open>a\<close> of \<open>l = 1\<close> token there is one variant, not
  \<open>l + 1\<close>; variant 0 of this sentence is the masked sentence, not the unperturbed one; and
  the mask is the identity matrix without a row of zeros above it.
\<close>

theorem occlusion_perturb_counterexample:
  "perturb_str char_tokenizer ''a'' = Inr ([[[Some ''[MASK]'']]], [[1]])
   \<and> length (tokenize char_tokenizer ''a'') = 1
   \<and> length [[Some ''[MASK]'']] \<noteq> 1 + 1
   \<and> [Some ''[MASK]''] \<noteq> inputs_embeddings char_tokenizer
         (tokens_to_ids char_tokenizer (map Some (tokenize char_tokenizer ''a'')))
   \<and> [[1]] \<noteq> replicate 1 (0::real) # eye 1"
  by (simp add: perturb_str_def char_tokenizer_def TokenOcclusionPerturbator_init_def
      stack_list_def eye_def Let_def)

subsection \<open>Expanding tensors\<close>

lemma concat_replicate_mult:
  "concat (replicate a (concat (replicate b xs))) = concat (replicate (a * b) xs)"
  by (induction a) (simp_all add: replicate_add)

lemma concat_chunks: "concat (chunks m s xs) = take (s * m) xs"
proof (induction s)
  case 0
  then show ?case by (simp add: chunks_def)
next
  case (Suc s)
  have "chunks m (Suc s) xs = chunks m s xs @ [take m (drop (s * m) xs)]"
    by (simp add: chunks_def)
  moreover have "take (Suc s * m) xs = take (s * m) xs @ take m (drop (s * m) xs)"
    using take_add [of "s * m" m xs] by (simp add: add.commute)
  ultimately show ?case using Suc by simp
qed

lemma chunks_length:
  assumes "length xs = s * m" "c \<in> set (chunks m s xs)"
  shows "length c = m"
proof -
  from assms(2) obtain i where i: "i < s" "c = take m (drop (i * m) xs)"
    by (auto simp: chunks_def)
  have "Suc i * m \<le> s * m" using i(1) by (intro mult_le_mono1) simp
  then show ?thesis using i(2) assms(1) by simp
qed

lemma chunks_one: "length xs = m \<Longrightarrow> chunks m (Suc 0) xs = [xs]"
  by (simp add: chunks_def)

lemma expand_elems_same:
  "length xs = prod_list ss \<Longrightarrow> expand_elems ss ss xs = xs"
proof (induction ss arbitrary: xs)
  case Nil
  then show ?case by simp
next
  case (Cons s ss)
  have "map (expand_elems ss ss) (chunks (prod_list ss) s xs) = chunks (prod_list ss) s xs"
    using Cons.IH chunks_length [of xs s "prod_list ss"] Cons.prems
    by (intro map_idI) simp
  then show ?case using Cons.prems by (simp add: concat_chunks)
qed

lemma expand_elems_lead_one:
  "length xs = prod_list ss \<Longrightarrow>
     expand_elems (1 # ss) (z # zs) xs = concat (replicate z (expand_elems ss zs xs))"
  by (auto simp: chunks_one)



declare expand_elems.simps [simp del]

lemma expand_elems_rows:
  "length xs = t \<Longrightarrow> expand_elems [t] [t] xs = xs"
  using expand_elems_same [of xs "[t]"] by simp

lemma expand_elems_new_dims:
  "length xs = t \<Longrightarrow>
     expand_elems (replicate (length zs) 1 @ [t]) (zs @ [t]) xs
       = concat (replicate (prod_list zs) xs)"
proof (induction zs)
  case Nil
  then show ?case by (simp add: expand_elems_rows del: expand_elems.simps)
next
  case (Cons z zs)
  have "length xs = prod_list (replicate (length zs) 1 @ [t])" using Cons.prems by simp
  then have "expand_elems (1 # replicate (length zs) 1 @ [t]) (z # zs @ [t]) xs
      = concat (replicate z (expand_elems (replicate (length zs) 1 @ [t]) (zs @ [t]) xs))"
    by (rule expand_elems_lead_one)
  then show ?case using Cons by (simp add: concat_replicate_mult del: expand_elems.simps)
qed

lemma expand_shape_new_dims:
  "expand_shape (replicate (length zs) None @ [Some t]) (map int (zs @ [t])) = Some (zs @ [t])"
  by (induction zs) simp_all

lemma expand_one_dim:
  assumes "shape target = [t]" "length (elems target) = t"
  shows "expand (map int (zs @ [t])) target
     = Inr (target\<lparr>shape := zs @ [t], elems := concat (replicate (prod_list zs) (elems target))\<rparr>)"
  using assms expand_shape_new_dims [of zs t] expand_elems_new_dims [of "elems target" t zs]
  by (simp add: expand_def dim_def del: expand_elems.simps)

lemma expand_leading_one:
  assumes "shape target = [1, t]" "length (elems target) = t"
  shows "expand [int n, - 1] target
     = Inr (target\<lparr>shape := [n, t], elems := concat (replicate n (elems target))\<rparr>)"
proof -
  have "expand_elems [1, t] [n, t] (elems target) = concat (replicate n (elems target))"
    using expand_elems_lead_one [of "elems target" "[t]" n "[t]"] assms(2)
    by (simp add: expand_elems_rows del: expand_elems.simps)
  moreover have "expand_shape [Some 1, Some t] [int n, - 1] = Some [n, t]"
    by auto
  ultimately show ?thesis using assms
    by (simp add: expand_def dim_def del: expand_elems.simps expand_shape.simps)
qed

subsection \<open>Target normalisation of the classification wrapper\<close>

text \<open>
  C4 (amended). \<open>_process_target\<close> treats a 0-D target as the 1-D target of length one; it
  repeats a 1-D target of length \<open>t\<close> over all leading dimensions of the logits (shape
  \<open>logits.shape[:-1] + (t,)\<close>); it repeats a 2-D target of shape \<open>(1, t)\<close>
  \<open>logits.shape[0]\<close> times; it returns every other 2-D target unchanged, whatever its
  leading dimension and the batch size; and it fails with \<open>ValueError\<close> exactly for the
  targets of three or more dimensions.
\<close>

theorem process_target_cases:
  "(shape target = [] \<and> length (elems target) = 1 \<and> shape logits \<noteq> [] \<longrightarrow>
      private_process_target target logits
        = private_process_target (target\<lparr>shape := [1]\<rparr>) logits
    \<and> private_process_target target logits
        = Inr (target\<lparr>shape := butlast (shape logits) @ [1],
                      elems := concat (replicate (prod_list (butlast (shape logits))) (elems target))\<rparr>))
 \<and> (shape target = [t] \<and> length (elems target) = t \<and> shape logits \<noteq> [] \<longrightarrow>
      private_process_target target logits
        = Inr (target\<lparr>shape := butlast (shape logits) @ [t],
                      elems := concat (replicate (prod_list (butlast (shape logits))) (elems target))\<rparr>))
 \<and> (shape target = [1, t] \<and> length (elems target) = t \<and> shape logits \<noteq> [] \<longrightarrow>
      private_process_target target logits
        = Inr (target\<lparr>shape := [hd (shape logits), t],
                      elems := concat (replicate (hd (shape logits)) (elems target))\<rparr>))
 \<and> (dim target = 2 \<and> shape target ! 0 \<noteq> 1 \<longrightarrow>
      private_process_target target logits = Inr target)
 \<and> (3 \<le> dim target \<longrightarrow> (\<exists>msg. private_process_target target logits = Inl (ValueError msg)))"
proof (intro conjI impI)
  assume a: "shape target = [t] \<and> length (elems target) = t \<and> shape logits \<noteq> []"
  then show "private_process_target target logits
        = Inr (target\<lparr>shape := butlast (shape logits) @ [t],
                      elems := concat (replicate (prod_list (butlast (shape logits))) (elems target))\<rparr>)"
    using expand_one_dim [of target t "butlast (shape logits)"] by (simp add: dim_def)
next
  assume a: "shape target = [] \<and> length (elems target) = 1 \<and> shape logits \<noteq> []"
  show "private_process_target target logits
        = private_process_target (target\<lparr>shape := [1]\<rparr>) logits"
    using a by (subst private_process_target.simps) (simp add: dim_def unsqueeze0_def)
  have "private_process_target (target\<lparr>shape := [1]\<rparr>) logits
     = Inr (target\<lparr>shape := butlast (shape logits) @ [1],
                      elems := concat (replicate (prod_list (butlast (shape logits))) (elems target))\<rparr>)"
    using a expand_one_dim [of "target\<lparr>shape := [1]\<rparr>" 1 "butlast (shape logits)"]
    by (subst private_process_target.simps) (simp add: dim_def)
  then show "private_process_target target logits
        = Inr (target\<lparr>shape := butlast (shape logits) @ [1],
                      elems := concat (replicate (prod_list (butlast (shape logits))) (elems target))\<rparr>)"
    using a by (subst private_process_target.simps) (simp add: dim_def unsqueeze0_def)
next
  assume a: "shape target = [1, t] \<and> length (elems target) = t \<and> shape logits \<noteq> []"
  then show "private_process_target target logits
        = Inr (target\<lparr>shape := [hd (shape logits), t],
                      elems := concat (replicate (hd (shape logits)) (elems target))\<rparr>)"
    using expand_leading_one [of target t "hd (shape logits)"]
    by (simp add: dim_def hd_conv_nth)
next
  assume "dim target = 2 \<and> shape target ! 0 \<noteq> 1"
  then show "private_process_target target logits = Inr target" by simp
next
  assume "3 \<le> dim target"
  then show "\<exists>msg. private_process_target target logits = Inl (ValueError msg)" by simp
qed

text \<open>
  C4 as stated fails: a 2-D target whose leading dimension 3 is neither 1 nor the batch
  size 2 of the logits is returned unchanged, not rejected.
\<close>

theorem process_target_counterexample:
  "private_process_target \<lparr>shape = [3, 1], dtype = Int64, elems = [0::int, 1, 0]\<rparr>
       \<lparr>shape = [2, 2], dtype = Float32, elems = [1::real, 2, 3, 4]\<rparr>
     = Inr \<lparr>shape = [3, 1], dtype = Int64, elems = [0, 1, 0]\<rparr>"
  by (simp add: dim_def)

theorem process_target_cases_witness:
  "private_process_target \<lparr>shape = [], dtype = Int64, elems = [1::int]\<rparr>
       \<lparr>shape = [2, 3], dtype = Float32, elems = [1::real, 2, 3, 4, 5, 6]\<rparr>
     = Inr \<lparr>shape = [2, 1], dtype = Int64, elems = [1, 1]\<rparr>
   \<and> private_process_target \<lparr>shape = [2], dtype = Int64, elems = [0::int, 1]\<rparr>
       \<lparr>shape = [2, 3], dtype = Float32, elems = [1::real, 2, 3, 4, 5, 6]\<rparr>
     = Inr \<lparr>shape = [2, 2], dtype = Int64, elems = [0, 1, 0, 1]\<rparr>
   \<and> private_process_target \<lparr>shape = [1, 2], dtype = Int64, elems = [2::int, 0]\<rparr>
       \<lparr>shape = [2, 3], dtype = Float32, elems = [1::real, 2, 3, 4, 5, 6]\<rparr>
     = Inr \<lparr>shape = [2, 2], dtype = Int64, elems = [2, 0, 2, 0]\<rparr>
   \<and> private_process_target \<lparr>shape = [2, 1], dtype = Int64, elems = [2::int, 0]\<rparr>
       \<lparr>shape = [2, 3], dtype = Float32, elems = [1::real, 2, 3, 4, 5, 6]\<rparr>
     = Inr \<lparr>shape = [2, 1], dtype = Int64, elems = [2, 0]\<rparr>
   \<and> (\<exists>msg. private_process_target \<lparr>shape = [1, 1, 1], dtype = Int64, elems = [2::int]\<rparr>
       \<lparr>shape = [2, 3], dtype = Float32, elems = [1::real, 2, 3, 4, 5, 6]\<rparr>
     = Inl (ValueError msg))"
  using process_target_cases [where target = "\<lparr>shape = [], dtype = Int64, elems = [1::int]\<rparr>"
          and logits = "\<lparr>shape = [2, 3], dtype = Float32, elems = [1::real, 2, 3, 4, 5, 6]\<rparr>"]
        process_target_cases [where target = "\<lparr>shape = [2], dtype = Int64, elems = [0::int, 1]\<rparr>"
          and t = 2
          and logits = "\<lparr>shape = [2, 3], dtype = Float32, elems = [1::real, 2, 3, 4, 5, 6]\<rparr>"]
        process_target_cases [where target = "\<lparr>shape = [1, 2], dtype = Int64, elems = [2::int, 0]\<rparr>"
          and t = 2
          and logits = "\<lparr>shape = [2, 3], dtype = Float32, elems = [1::real, 2, 3, 4, 5, 6]\<rparr>"]
        process_target_cases [where target = "\<lparr>shape = [2, 1], dtype = Int64, elems = [2::int, 0]\<rparr>"
          and logits = "\<lparr>shape = [2, 3], dtype = Float32, elems = [1::real, 2, 3, 4, 5, 6]\<rparr>"]
        process_target_cases [where target = "\<lparr>shape = [1, 1, 1], dtype = Int64, elems = [2::int]\<rparr>"
          and logits = "\<lparr>shape = [2, 3], dtype = Float32, elems = [1::real, 2, 3, 4, 5, 6]\<rparr>"]
  by (auto simp: dim_def numeral_2_eq_2 simp del: private_process_target.simps)

subsection \<open>Targeted logits over an iterable of inputs\<close>

lemma length_concat_replicate: "length (concat (replicate k xs)) = k * length xs"
  by (induction k) simp_all

lemma drop_concat_replicate:
  "drop (k * length xs) (concat (replicate (k + m) xs)) = concat (replicate m xs)"
  by (simp add: replicate_add length_concat_replicate)

lemma chunk_concat_replicate:
  assumes "k < b" "length row = t"
  shows "take t (drop (k * t) (concat (replicate b row))) = row"
proof -
  obtain m where b: "b = k + Suc m" using assms(1) by (metis less_imp_Suc_add add_Suc_right)
  have "drop (k * t) (concat (replicate b row)) = concat (replicate (Suc m) row)"
    unfolding b using drop_concat_replicate [of k row "Suc m"] assms(2) by simp
  then show ?thesis using assms(2) by simp
qed

lemma row_length:
  assumes "length xs = n * t" "r < n"
  shows "length (take t (drop (r * t) xs)) = t"
proof -
  have "Suc r * t \<le> n * t" using assms(2) by (intro mult_le_mono1) simp
  then show ?thesis using assms(1) by simp
qed

lemma select0_row:
  assumes "shape targets = [n, t]" "r < n"
  shows "select0 r targets = Inr (targets\<lparr>shape := [t], elems := take t (drop (r * t) (elems targets))\<rparr>)"
  using assms by (simp add: select0_def)

lemma gather_two_dim:
  assumes lg: "shape logits = [b, c]"
    and rng: "\<forall>j \<in> set row. 0 \<le> j \<and> j < int c"
  shows "gather_last logits \<lparr>shape = [b, length row], dtype = Int64, elems = concat (replicate b row)\<rparr>
           = Inr (gather_row logits row)"
proof -
  have "gather_elems [b, c] [b, length row] (elems logits) (concat (replicate b row))
      = concat (map (\<lambda>k. map (\<lambda>j. take c (drop (k * c) (elems logits)) ! nat j) row) [0..<b])"
    by (auto simp: chunk_concat_replicate intro!: arg_cong [where f = concat])
  also have "\<dots> = concat (map (\<lambda>r. map (\<lambda>j. r ! nat j) row) (chunks c b (elems logits)))"
    by (simp add: chunks_def comp_def)
  finally have e: "gather_elems [b, c] [b, length row] (elems logits) (concat (replicate b row))
      = concat (map (\<lambda>r. map (\<lambda>j. r ! nat j) row) (chunks c b (elems logits)))" .
  have "\<not> (\<exists>j \<in> set (concat (replicate b row)). j < 0 \<or> int c \<le> j)"
    using rng by auto
  then show ?thesis using lg e
    by (auto simp: gather_last_def gather_row_def Let_def simp del: gather_elems.simps)
qed

lemma loop_step:
  assumes tg: "shape targets = [n, t]" "dtype targets = Int64" "length (elems targets) = n * t"
      "\<forall>j \<in> set (elems targets). 0 \<le> j \<and> j < int c"
    and lg: "shape logits = [b, c]"
    and r: "r < n"
  shows "\<exists>row. select0 r targets = Inr row
     \<and> (\<exists>idx. expand [int (shape logits ! 0), - 1] (unsqueeze0 row) = Inr idx
          \<and> gather_last logits idx = Inr (gather_row logits (target_row targets r)))"
proof -
  let ?row = "take t (drop (r * t) (elems targets))"
  have len: "length ?row = t" using row_length [OF tg(3) r] .
  have sel: "select0 r targets = Inr (targets\<lparr>shape := [t], elems := ?row\<rparr>)"
    using select0_row [OF tg(1) r] .
  have ex: "expand [int b, - 1] (unsqueeze0 (targets\<lparr>shape := [t], elems := ?row\<rparr>))
      = Inr \<lparr>shape = [b, length ?row], dtype = Int64, elems = concat (replicate b ?row)\<rparr>"
    using expand_leading_one [of "unsqueeze0 (targets\<lparr>shape := [t], elems := ?row\<rparr>)" t b] len tg(2)
    by (simp add: unsqueeze0_def)
  have "\<forall>j \<in> set ?row. 0 \<le> j \<and> j < int c"
    using tg(4) by (meson in_set_dropD in_set_takeD)
  from gather_two_dim [OF lg this] have
    "gather_last logits \<lparr>shape = [b, length ?row], dtype = Int64, elems = concat (replicate b ?row)\<rparr>
       = Inr (gather_row logits (target_row targets r))"
    using tg(1) by (simp add: target_row_def)
  then show ?thesis using sel ex lg by simp
qed

lemma loop_result:
  assumes tg: "shape targets = [n, t]" "dtype targets = Int64" "length (elems targets) = n * t"
      "\<forall>j \<in> set (elems targets). 0 \<le> j \<and> j < int c"
    and lg: "\<forall>logits \<in> set predictions. \<exists>b. shape logits = [b, c]"
    and r: "\<forall>k < length predictions. (if si = 0 then 0 else ix + k) < n"
  shows "targeted_logits_loop si ix targets predictions
     = (map (\<lambda>k. gather_row (predictions ! k)
                    (target_row targets (if si = 0 then 0 else ix + k)))
          [0..<length predictions], None)"
  using lg r
proof (induction predictions arbitrary: ix)
  case Nil
  then show ?case by simp
next
  case (Cons logits predictions)
  from Cons.prems(1) obtain b where b: "shape logits = [b, c]" by auto
  have r0: "(if si = 0 then 0 else ix) < n" using Cons.prems(2) by fastforce
  from loop_step [OF tg b r0] obtain row idx where
    st: "select0 (if si = 0 then 0 else ix) targets = Inr row"
        "expand [int (shape logits ! 0), - 1] (unsqueeze0 row) = Inr idx"
        "gather_last logits idx
           = Inr (gather_row logits (target_row targets (if si = 0 then 0 else ix)))"
    by blast
  have "\<forall>k < length predictions. (if si = 0 then 0 else Suc ix + k) < n"
    using Cons.prems(2) by fastforce
  with Cons.IH [of "Suc ix"] Cons.prems(1)
  have ih: "targeted_logits_loop si (Suc ix) targets predictions
     = (map (\<lambda>k. gather_row (predictions ! k)
                    (target_row targets (if si = 0 then 0 else Suc ix + k)))
          [0..<length predictions], None)" by simp
  have "map (\<lambda>k. gather_row ((logits # predictions) ! k)
                    (target_row targets (if si = 0 then 0 else ix + k)))
          [0..<length (logits # predictions)]
      = gather_row logits (target_row targets (if si = 0 then 0 else ix))
        # map (\<lambda>k. gather_row (predictions ! k)
                    (target_row targets (if si = 0 then 0 else Suc ix + k)))
          [0..<length predictions]"
    by (simp add: upt_conv_Cons map_Suc_upt [symmetric] del: upt_Suc)
  then show ?case using st ih b by (auto simp del: upt_Suc)
qed

lemma view_one_row:
  "view [1, - 1] t = Inr (t\<lparr>shape := [1, numel t]\<rparr>)"
  by (simp add: view_def infer_size_def)

text \<open>
  C10. For logits of shape \<open>(b, c)\<close> per input and int64 targets with values in
  \<open>[0, c)\<close>: when the targets have shape \<open>(n, t)\<close> with \<open>n > 1\<close> (and there are at most
  \<open>n\<close> inputs), the \<open>i\<close>-th result is the logits of input \<open>i\<close> gathered at row \<open>i\<close> of the
  targets; when the targets are 0-D, 1-D or 2-D with one row, every result is gathered at
  that single row. The gathered tensor has shape \<open>(b, t)\<close>: the same indices for every
  row of the input's batch, taken along the last axis.
\<close>

theorem targeted_logits_pairing:
  assumes lg: "\<forall>logits \<in> set predictions. \<exists>b. shape logits = [b, c]"
    and tg: "dtype targets = Int64" "well_formed targets"
      "\<forall>j \<in> set (elems targets). 0 \<le> j \<and> j < int c"
  shows "(shape targets = [n, t] \<and> 1 < n \<and> length predictions \<le> n \<longrightarrow>
           get_targeted_logits_from_iterable predictions targets
             = (map (\<lambda>i. gather_row (predictions ! i) (target_row targets i))
                  [0..<length predictions], None))
       \<and> (dim targets = 0 \<or> dim targets = 1 \<or> (dim targets = 2 \<and> shape targets ! 0 = 1) \<longrightarrow>
           get_targeted_logits_from_iterable predictions targets
             = (map (\<lambda>logits. gather_row logits (elems targets)) predictions, None))"
proof (intro conjI impI)
  assume a: "shape targets = [n, t] \<and> 1 < n \<and> length predictions \<le> n"
  have len: "length (elems targets) = n * t" using tg(2) a by (simp add: well_formed_def)
  have "\<forall>k < length predictions. (if (1::nat) = 0 then 0 else 0 + k) < n" using a by simp
  from loop_result [OF _ tg(1) len tg(3) lg this] a
  show "get_targeted_logits_from_iterable predictions targets
             = (map (\<lambda>i. gather_row (predictions ! i) (target_row targets i))
                  [0..<length predictions], None)"
    by (simp add: get_targeted_logits_from_iterable_def dim_def)
next
  assume a: "dim targets = 0 \<or> dim targets = 1 \<or> (dim targets = 2 \<and> shape targets ! 0 = 1)"
  let ?m = "length (elems targets)"
  let ?t2 = "targets\<lparr>shape := [1, ?m]\<rparr>"
  have sh: "(if dim targets = 0 \<or> dim targets = 1 then view [1, - 1] targets else Inr targets)
      = Inr ?t2"
  proof (cases "dim targets = 0 \<or> dim targets = 1")
    case True
    then show ?thesis using tg(2) by (simp add: view_one_row numel_def well_formed_def)
  next
    case False
    then have "dim targets = 2" "shape targets ! 0 = 1" using a by auto
    then obtain t where "shape targets = [1, t]"
      by (cases "shape targets"; cases "tl (shape targets)") (auto simp: dim_def)
    then show ?thesis using False tg(2) by (simp add: well_formed_def)
  qed
  have r: "\<forall>k < length predictions. (if (0::nat) = 0 then 0 else 0 + k) < 1" by simp
  have "targeted_logits_loop 0 0 ?t2 predictions
     = (map (\<lambda>k. gather_row (predictions ! k) (target_row ?t2 (if (0::nat) = 0 then 0 else 0 + k)))
          [0..<length predictions], None)"
    using tg by (intro loop_result [where n = 1 and t = ?m and c = c] lg r) simp_all
  moreover have "target_row ?t2 0 = elems targets" by (simp add: target_row_def)
  moreover have "map (\<lambda>k. gather_row (predictions ! k) (elems targets)) [0..<length predictions]
      = map (\<lambda>logits. gather_row logits (elems targets)) predictions"
    by (intro nth_equalityI) simp_all
  ultimately show "get_targeted_logits_from_iterable predictions targets
             = (map (\<lambda>logits. gather_row logits (elems targets)) predictions, None)"
    using sh by (simp add: get_targeted_logits_from_iterable_def)
qed

theorem targeted_logits_pairing_witness:
  "get_targeted_logits_from_iterable [logits_a, logits_b]
      \<lparr>shape = [2, 2], dtype = Int64, elems = [0, 2, 1, 1]\<rparr>
     = ([\<lparr>shape = [2, 2], dtype = Float32, elems = [10, 12, 20, 22]\<rparr>,
         \<lparr>shape = [1, 2], dtype = Float32, elems = [31, 31]\<rparr>], None)
   \<and> get_targeted_logits_from_iterable [logits_a, logits_b]
      \<lparr>shape = [2], dtype = Int64, elems = [0, 2]\<rparr>
     = ([\<lparr>shape = [2, 2], dtype = Float32, elems = [10, 12, 20, 22]\<rparr>,
         \<lparr>shape = [1, 2], dtype = Float32, elems = [30, 32]\<rparr>], None)"
proof -
  have lg: "\<forall>logits \<in> set [logits_a, logits_b]. \<exists>b. shape logits = [b, 3]"
    by (simp add: logits_a_def logits_b_def)
  have a: "get_targeted_logits_from_iterable [logits_a, logits_b]
      \<lparr>shape = [2, 2], dtype = Int64, elems = [0, 2, 1, 1]\<rparr>
     = (map (\<lambda>i. gather_row ([logits_a, logits_b] ! i)
               (target_row \<lparr>shape = [2, 2], dtype = Int64, elems = [0, 2, 1, 1]\<rparr> i))
          [0..<length [logits_a, logits_b]], None)"
    using targeted_logits_pairing [OF lg,
        where targets = "\<lparr>shape = [2, 2], dtype = Int64, elems = [0, 2, 1, 1]\<rparr>" and n = 2 and t = 2]
    by (simp add: well_formed_def)
  have b: "get_targeted_logits_from_iterable [logits_a, logits_b]
      \<lparr>shape = [2], dtype = Int64, elems = [0, 2]\<rparr>
     = (map (\<lambda>logits. gather_row logits (elems \<lparr>shape = [2], dtype = Int64, elems = [0::int, 2]\<rparr>))
          [logits_a, logits_b], None)"
    using targeted_logits_pairing [OF lg,
        where targets = "\<lparr>shape = [2], dtype = Int64, elems = [0, 2]\<rparr>"]
    by (simp add: well_formed_def dim_def)
  show ?thesis unfolding a b
    by (simp add: gather_row_def target_row_def chunks_def logits_a_def logits_b_def upt_rec)
qed

subsection \<open>Linear interpolation\<close>

lemma length_concat_map_const:
  "(\<And>x. x \<in> set xs \<Longrightarrow> length (g x) = m) \<Longrightarrow> length (concat (map g xs)) = length xs * m"
  by (induction xs) simp_all





















lemma map2_fst: "length xs = length ys \<Longrightarrow> map2 (\<lambda>x y. x) xs ys = xs"
  by (intro nth_equalityI) simp_all

lemma map2_snd: "length xs = length ys \<Longrightarrow> map2 (\<lambda>x y. y) xs ys = ys"
  by (intro nth_equalityI) simp_all













subsection \<open>Targets of the classification explainer\<close>

lemma argmax_from_spec:
  assumes "length pre = i" "bi < i" "pre ! bi = best"
    "\<forall>j < i. pre ! j \<le> best" "\<forall>j < bi. pre ! j < best"
  shows "argmax_from best bi i xs < length (pre @ xs)
       \<and> (\<forall>j < length (pre @ xs). (pre @ xs) ! j \<le> (pre @ xs) ! argmax_from best bi i xs)
       \<and> (\<forall>j < argmax_from best bi i xs. (pre @ xs) ! j < (pre @ xs) ! argmax_from best bi i xs)"
  using assms
proof (induction xs arbitrary: best bi i pre)
  case Nil
  then show ?case by simp
next
  case (Cons x xs)
  show ?case
  proof (cases "best < x")
    case True
    have "argmax_from x i (i + 1) xs < length ((pre @ [x]) @ xs)
       \<and> (\<forall>j < length ((pre @ [x]) @ xs). ((pre @ [x]) @ xs) ! j \<le> ((pre @ [x]) @ xs) ! argmax_from x i (i + 1) xs)
       \<and> (\<forall>j < argmax_from x i (i + 1) xs. ((pre @ [x]) @ xs) ! j < ((pre @ [x]) @ xs) ! argmax_from x i (i + 1) xs)"
    proof (rule Cons.IH)
      show "length (pre @ [x]) = i + 1" using Cons.prems by simp
      show "i < i + 1" by simp
      show "(pre @ [x]) ! i = x" using Cons.prems(1) by (simp add: nth_append)
      show "\<forall>j < i + 1. (pre @ [x]) ! j \<le> x"
        using Cons.prems True by (auto simp: nth_append less_Suc_eq)
      show "\<forall>j < i. (pre @ [x]) ! j < x"
        using Cons.prems True by (auto simp: nth_append)
    qed
    then show ?thesis using True by simp
  next
    case False
    have "argmax_from best bi (i + 1) xs < length ((pre @ [x]) @ xs)
       \<and> (\<forall>j < length ((pre @ [x]) @ xs). ((pre @ [x]) @ xs) ! j \<le> ((pre @ [x]) @ xs) ! argmax_from best bi (i + 1) xs)
       \<and> (\<forall>j < argmax_from best bi (i + 1) xs. ((pre @ [x]) @ xs) ! j < ((pre @ [x]) @ xs) ! argmax_from best bi (i + 1) xs)"
    proof (rule Cons.IH)
      show "length (pre @ [x]) = i + 1" using Cons.prems by simp
      show "bi < i + 1" using Cons.prems by simp
      show "(pre @ [x]) ! bi = best" using Cons.prems by (simp add: nth_append)
      show "\<forall>j < i + 1. (pre @ [x]) ! j \<le> best"
        using Cons.prems False by (auto simp: nth_append less_Suc_eq)
      show "\<forall>j < bi. (pre @ [x]) ! j < best"
        using Cons.prems by (auto simp: nth_append)
    qed
    then show ?thesis using False by simp
  qed
qed

lemma argmax_list_spec:
  assumes "xs \<noteq> []"
  shows "argmax_list xs < length xs
       \<and> (\<forall>j < length xs. xs ! j \<le> xs ! argmax_list xs)
       \<and> (\<forall>j < argmax_list xs. xs ! j < xs ! argmax_list xs)"
proof -
  obtain x rest where xs: "xs = x # rest" using assms by (cases xs) auto
  show ?thesis
    using argmax_from_spec [of "[x]" 1 0 x rest] by (simp add: xs argmax_list_def)
qed

lemma chunks_append:
  assumes "length xs = b * c"
  shows "chunks c (b + k) (xs @ ys) = chunks c b xs @ chunks c k ys"
proof -
  have low: "take c (drop (i * c) (xs @ ys)) = take c (drop (i * c) xs)" if "i < b" for i
  proof -
    have "Suc i * c \<le> b * c" using that by (intro mult_le_mono1) simp
    then show ?thesis using assms by simp
  qed
  have high: "take c (drop ((j + b) * c) (xs @ ys)) = take c (drop (j * c) ys)" for j
    using assms by (simp add: add_mult_distrib)
  let ?F = "\<lambda>i. take c (drop (i * c) (xs @ ys))"
  have "[0..<b + k] = [0..<b] @ [b..<b + k]"
    using upt_add_eq_append [of 0 b k] by simp
  moreover have "[b..<b + k] = map (\<lambda>j. j + b) [0..<k]"
    using map_add_upt [of b k] by (simp only: add.commute [of b k])
  ultimately have split: "[0..<b + k] = [0..<b] @ map (\<lambda>j. j + b) [0..<k]"
    by (simp only:)
  have l: "map ?F [0..<b] = map (\<lambda>i. take c (drop (i * c) xs)) [0..<b]"
    by (rule map_cong) (use low in auto)
  have h: "map ?F (map (\<lambda>j. j + b) [0..<k]) = map (\<lambda>j. take c (drop (j * c) ys)) [0..<k]"
    by (simp only: map_map comp_def high)
  have "chunks c (b + k) (xs @ ys) = map ?F [0..<b] @ map ?F (map (\<lambda>j. j + b) [0..<k])"
    unfolding chunks_def split by (rule map_append)
  then show ?thesis unfolding l h by (simp only: chunks_def)
qed

lemma chunks_concat:
  assumes "\<forall>l \<in> set ls. length (f l) = b * c"
  shows "chunks c (length ls * b) (concat (map f ls)) = concat (map (\<lambda>l. chunks c b (f l)) ls)"
  using assms
proof (induction ls)
  case Nil
  then show ?case by (simp add: chunks_def)
next
  case (Cons l ls)
  then show ?case using chunks_append [of "f l" b c "length ls * b" "concat (map f ls)"] by simp
qed

lemma stack_same_shape:
  assumes "outputs \<noteq> []" "\<forall>l \<in> set outputs. shape l = sh"
  shows "\<exists>d. stack outputs = Inr \<lparr>shape = length outputs # sh, dtype = d,
                                   elems = concat (map elems outputs)\<rparr>"
  using assms by (cases outputs) (auto simp: stack_def)

lemma process_target_batch:
  assumes "shape target = [n, b]" "length (elems target) = n * b" "0 < n"
  shows "process_target target [n, b] = Inr target"
proof (cases "n = 1")
  case True
  have "expand [int 1, - 1] target
      = Inr (target\<lparr>shape := [1, b], elems := concat (replicate 1 (elems target))\<rparr>)"
    using assms True by (intro expand_leading_one) simp_all
  then show ?thesis using assms True by (simp add: dim_def)
next
  case False
  then show ?thesis using assms by (simp add: dim_def)
qed

text \<open>
  C8. With \<open>targets = None\<close>, when the model gives logits of shape \<open>(b, c)\<close> for each of
  the standardized inputs, the function returns the inputs as they were given together
  with the targets of shape \<open>(n, b)\<close> that hold, for each input and each row of its
  logits, the argmax of that row: an index below \<open>c\<close> whose logit is maximal, the first
  such index. For \<open>b = 1\<close> this is one argmax per input.
\<close>

theorem classification_targets_argmax:
  assumes gl: "get_logits model_inputs = Inr outputs" and ne: "outputs \<noteq> []"
    and sh: "\<forall>l \<in> set outputs. shape l = [b, c] \<and> well_formed l" and c: "0 < c"
  shows "process_inputs_to_explain_and_targets get_logits model_inputs None
     = Inr (model_inputs,
            \<lparr>shape = [length outputs, b], dtype = Int64,
             elems = concat (map (\<lambda>l. map (\<lambda>row. int (argmax_list row)) (chunks c b (elems l)))
                              outputs)\<rparr>)
   \<and> (b = 1 \<longrightarrow>
        concat (map (\<lambda>l. map (\<lambda>row. int (argmax_list row)) (chunks c b (elems l))) outputs)
          = map (\<lambda>l. int (argmax_list (elems l))) outputs)
   \<and> (\<forall>l \<in> set outputs. \<forall>row \<in> set (chunks c b (elems l)).
         argmax_list row < c
       \<and> (\<forall>j < c. row ! j \<le> row ! argmax_list row)
       \<and> (\<forall>j < argmax_list row. row ! j < row ! argmax_list row))"
proof (intro conjI)
  let ?n = "length outputs"
  let ?f = "\<lambda>row :: real list. int (argmax_list row)"
  have len: "\<forall>l \<in> set outputs. length (elems l) = b * c"
    using sh by (simp add: well_formed_def)
  from stack_same_shape [OF ne, of "[b, c]"] sh obtain d where
    st: "stack outputs = Inr \<lparr>shape = [?n, b, c], dtype = d, elems = concat (map elems outputs)\<rparr>"
    by auto
  have ch: "chunks c (?n * b) (concat (map elems outputs))
      = concat (map (\<lambda>l. chunks c b (elems l)) outputs)"
    using chunks_concat [of outputs elems b c] len by simp
  have am: "argmax_last \<lparr>shape = [?n, b, c], dtype = d, elems = concat (map elems outputs)\<rparr>
      = Inr \<lparr>shape = [?n, b], dtype = Int64,
             elems = concat (map (\<lambda>l. map ?f (chunks c b (elems l))) outputs)\<rparr>"
    using c ch by (simp add: argmax_last_def map_concat comp_def)
  have lt: "length (concat (map (\<lambda>l. map ?f (chunks c b (elems l))) outputs)) = ?n * b"
    using length_concat_map_const [of outputs "\<lambda>l. map ?f (chunks c b (elems l))" b]
    by (simp add: chunks_def)
  have pt: "process_target \<lparr>shape = [?n, b], dtype = Int64,
             elems = concat (map (\<lambda>l. map ?f (chunks c b (elems l))) outputs)\<rparr> [?n, b]
      = Inr \<lparr>shape = [?n, b], dtype = Int64,
             elems = concat (map (\<lambda>l. map ?f (chunks c b (elems l))) outputs)\<rparr>"
    using ne lt by (intro process_target_batch) simp_all
  show "process_inputs_to_explain_and_targets get_logits model_inputs None
     = Inr (model_inputs,
            \<lparr>shape = [?n, b], dtype = Int64,
             elems = concat (map (\<lambda>l. map ?f (chunks c b (elems l))) outputs)\<rparr>)"
    using pt by (simp add: process_inputs_to_explain_and_targets_def bind_result_def gl st am
        del: process_target.simps)
  show "b = 1 \<longrightarrow>
        concat (map (\<lambda>l. map ?f (chunks c b (elems l))) outputs)
          = map (\<lambda>l. int (argmax_list (elems l))) outputs"
  proof
    assume b1: "b = 1"
    have "map (\<lambda>l. map ?f (chunks c b (elems l))) outputs
        = map (\<lambda>l. [int (argmax_list (elems l))]) outputs"
      using len b1 by (intro map_cong) (auto simp: chunks_def)
    then show "concat (map (\<lambda>l. map ?f (chunks c b (elems l))) outputs)
          = map (\<lambda>l. int (argmax_list (elems l))) outputs"
      by (simp only:) (induction outputs, simp_all)
  qed
  show "\<forall>l \<in> set outputs. \<forall>row \<in> set (chunks c b (elems l)).
         argmax_list row < c
       \<and> (\<forall>j < c. row ! j \<le> row ! argmax_list row)
       \<and> (\<forall>j < argmax_list row. row ! j < row ! argmax_list row)"
  proof (intro ballI)
    fix l row
    assume l: "l \<in> set outputs" and row: "row \<in> set (chunks c b (elems l))"
    have "length (elems l) = b * c" using len l by simp
    from chunks_length [OF this row] have "length row = c" .
    then show "argmax_list row < c
       \<and> (\<forall>j < c. row ! j \<le> row ! argmax_list row)
       \<and> (\<forall>j < argmax_list row. row ! j < row ! argmax_list row)"
      using argmax_list_spec [of row] c by auto
  qed
qed

theorem classification_targets_argmax_witness:
  "process_inputs_to_explain_and_targets
      (\<lambda>xs. Inr (map (\<lambda>x. \<lparr>shape = [1, 3], dtype = Float32, elems = x\<rparr>) xs))
      [[1, 5, 2], [7, 7, 3]] None
     = Inr ([[1, 5, 2], [7, 7, 3]], \<lparr>shape = [2, 1], dtype = Int64, elems = [1, 0]\<rparr>)"
proof -
  let ?gl = "\<lambda>xs. Inr (map (\<lambda>x. \<lparr>shape = [1, 3], dtype = Float32, elems = x\<rparr>) xs)
               :: error + real tensor list"
  let ?out = "[\<lparr>shape = [1, 3], dtype = Float32, elems = [1, 5, 2]\<rparr>,
               \<lparr>shape = [1, 3], dtype = Float32, elems = [7, 7, 3]\<rparr>] :: real tensor list"
  have h: "?gl [[1, 5, 2], [7, 7, 3]] = Inr ?out" "?out \<noteq> []"
    "\<forall>l \<in> set ?out. shape l = [1, 3] \<and> well_formed l" "0 < (3::nat)"
    by (simp_all add: well_formed_def)
  from classification_targets_argmax [where get_logits = ?gl, OF h]
  show ?thesis by (simp add: chunks_def argmax_list_def)
qed

end
